theory Spec2Isabelle
  imports
    Complex_Main
    "HOL-Library.Multiset"
    "HOL-Library.Char_ord"
    "HOL-Library.List_Lexorder"
    "HOL-Library.Product_Lexorder"
begin

section \<open>Data model\<close>

text \<open>
  The detection pipeline of the repository (\<^verbatim>\<open>app/detection.py\<close>,
  \<^verbatim>\<open>app/response_builder.py\<close>, \<^verbatim>\<open>app/alert_engine.py\<close>,
  \<^verbatim>\<open>app/risk_engine.py\<close>, \<^verbatim>\<open>app/validators.py\<close>) embedded as HOL
  functions. Account identifiers are strings, timestamps are whole seconds
  (the input format \<^verbatim>\<open>YYYY-MM-DD HH:MM:SS\<close> has no finer resolution), and
  Python's floats are idealised as reals.
\<close>

type_synonym account = string

subsection \<open>Fraud rings\<close>

text \<open>
  A fraud ring is a Python dict. The record has one optional field per key that the
  source writes (\<^verbatim>\<open>construct_fraud_rings\<close>: \<^verbatim>\<open>ring_id\<close>,
  \<^verbatim>\<open>pattern_type\<close>, \<^verbatim>\<open>member_accounts\<close>, \<^verbatim>\<open>member_count\<close>,
  \<^verbatim>\<open>risk_score\<close>, \<^verbatim>\<open>description\<close>) or reads
  (\<^verbatim>\<open>detect_new_rings\<close>: \<^verbatim>\<open>ring_id\<close>, \<^verbatim>\<open>members\<close>,
  \<^verbatim>\<open>risk_score\<close>, \<^verbatim>\<open>pattern\<close>, \<^verbatim>\<open>description\<close>);
  \<open>None\<close> is an absent key, so \<^verbatim>\<open>d.get(k, default)\<close> is a case
  distinction on the field.
\<close>

record ring =
  ring_id :: "string option"
  pattern_type :: "string option"
  member_accounts :: "account list option"
  member_count :: "nat option"
  risk_score :: "real option"
  description :: "string option"
  members :: "account list option"
  pattern :: "string option"

definition dict_get :: "'a option \<Rightarrow> 'a \<Rightarrow> 'a" where
  "dict_get field dflt = (case field of None \<Rightarrow> dflt | Some v \<Rightarrow> v)"

section \<open>Alert engine\<close>

datatype AlertSeverity = CRITICAL | HIGH | MEDIUM | LOW

datatype AlertType =
  NEW_RING | RISK_SPIKE | VELOCITY_ANOMALY | NEW_CYCLE | VOLUME_ANOMALY | CRITICAL_NODE

datatype meta = MNum real | MStr string

text \<open>
  An alert, without the fields taken from the wall clock (\<^verbatim>\<open>id\<close>,
  \<^verbatim>\<open>timestamp\<close>) and without the display message.
\<close>

record alert =
  alert_type :: AlertType
  severity :: AlertSeverity
  account_id :: "account option"
  alert_ring_id :: "string option"
  alert_risk_score :: "real option"
  metadata :: "(string \<times> meta) list"
  acknowledged :: bool

text \<open>
  A \<^verbatim>\<open>Dict[str, float]\<close> is an association list in insertion order; a
  well-formed one has each key once. \<^verbatim>\<open>d.get(k, 0)\<close> is \<open>score_get\<close>.
\<close>

type_synonym score_dict = "(account \<times> real) list"

definition dict_wf :: "score_dict \<Rightarrow> bool" where
  "dict_wf d = distinct (map fst d)"

definition score_get :: "score_dict \<Rightarrow> account \<Rightarrow> real" where
  "score_get d k = (case map_of d k of None \<Rightarrow> 0 | Some v \<Rightarrow> v)"

record previous_state =
  prev_rings :: "string option set"
  prev_risk_scores :: score_dict
  prev_velocities :: score_dict

record alert_engine =
  alerts :: "alert list"
  max_alerts :: nat
  previous :: previous_state

definition AlertEngine :: "nat \<Rightarrow> alert_engine" where
  "AlertEngine n =
     \<lparr>alerts = [], max_alerts = n,
      previous = \<lparr>prev_rings = {}, prev_risk_scores = [], prev_velocities = []\<rparr>\<rparr>"

definition new_ring_severity :: "real \<Rightarrow> nat \<Rightarrow> AlertSeverity" where
  "new_ring_severity score mcount =
     (if score \<ge> 80 \<or> mcount \<ge> 10 then CRITICAL
      else if score \<ge> 60 \<or> mcount \<ge> 7 then HIGH
      else MEDIUM)"

definition new_ring_alert :: "ring \<Rightarrow> alert" where
  "new_ring_alert r =
     (let mcount = length (dict_get (members r) []);
          score = dict_get (risk_score r) 0
      in \<lparr>alert_type = NEW_RING,
          severity = new_ring_severity score mcount,
          account_id = None,
          alert_ring_id = ring_id r,
          alert_risk_score = Some score,
          metadata = [(''member_count'', MNum (real mcount)),
                      (''pattern'', MStr (dict_get (pattern r) ''Unknown'')),
                      (''description'', MStr (dict_get (description r) ''''))],
          acknowledged = False\<rparr>)"

definition detect_new_rings :: "ring list \<Rightarrow> string option set \<Rightarrow> alert list" where
  "detect_new_rings current_rings previous_rings =
     (let current_ring_ids = set (map ring_id current_rings);
          new_rings = current_ring_ids - previous_rings
      in map new_ring_alert (filter (\<lambda>r. ring_id r \<in> new_rings) current_rings))"

definition risk_spike_alert :: "account \<Rightarrow> real \<Rightarrow> real \<Rightarrow> alert" where
  "risk_spike_alert acc current_score previous_score =
     (let spike = current_score - previous_score
      in \<lparr>alert_type = RISK_SPIKE,
          severity = (if spike \<ge> 40 \<or> current_score \<ge> 80 then CRITICAL
                      else if spike \<ge> 30 \<or> current_score \<ge> 60 then HIGH
                      else MEDIUM),
          account_id = Some acc,
          alert_ring_id = None,
          alert_risk_score = Some current_score,
          metadata = [(''previous_score'', MNum previous_score),
                      (''spike_amount'', MNum spike)],
          acknowledged = False\<rparr>)"

definition detect_risk_spikes :: "score_dict \<Rightarrow> score_dict \<Rightarrow> alert list" where
  "detect_risk_spikes current_scores previous_scores =
     concat (map (\<lambda>(acc, current_score).
        (let previous_score = score_get previous_scores acc;
             spike = current_score - previous_score
         in if spike \<ge> 20 then [risk_spike_alert acc current_score previous_score] else []))
       current_scores)"

definition velocity_alert :: "account \<Rightarrow> real \<Rightarrow> real \<Rightarrow> alert list" where
  "velocity_alert acc current_velocity previous_velocity =
     (if previous_velocity > 0 then
        (let velocity_ratio = current_velocity / previous_velocity
         in if velocity_ratio \<ge> 5 \<or> current_velocity \<ge> 10 then
              [\<lparr>alert_type = VELOCITY_ANOMALY,
                severity = (if current_velocity \<ge> 15 then CRITICAL
                            else if current_velocity \<ge> 10 then HIGH
                            else MEDIUM),
                account_id = Some acc,
                alert_ring_id = None,
                alert_risk_score = None,
                metadata = [(''previous_velocity'', MNum previous_velocity),
                            (''current_velocity'', MNum current_velocity),
                            (''ratio'', MNum velocity_ratio)],
                acknowledged = False\<rparr>]
            else [])
      else if current_velocity \<ge> 10 then
        [\<lparr>alert_type = VELOCITY_ANOMALY,
          severity = HIGH,
          account_id = Some acc,
          alert_ring_id = None,
          alert_risk_score = None,
          metadata = [(''current_velocity'', MNum current_velocity)],
          acknowledged = False\<rparr>]
      else [])"

definition detect_velocity_anomalies :: "score_dict \<Rightarrow> score_dict \<Rightarrow> alert list" where
  "detect_velocity_anomalies current_velocities previous_velocities =
     concat (map (\<lambda>(acc, current_velocity).
        velocity_alert acc current_velocity (score_get previous_velocities acc))
       current_velocities)"

definition detect_critical_nodes :: "alert_engine \<Rightarrow> score_dict \<Rightarrow> alert list" where
  "detect_critical_nodes eng risk_scores =
     concat (map (\<lambda>(acc, score).
        if score \<ge> 85 \<and> acc \<notin> fst ` set (prev_risk_scores (previous eng)) then
          [\<lparr>alert_type = CRITICAL_NODE, severity = CRITICAL, account_id = Some acc,
            alert_ring_id = None, alert_risk_score = Some score, metadata = [],
            acknowledged = False\<rparr>]
        else [])
       risk_scores)"

definition add_alert :: "alert_engine \<Rightarrow> alert \<Rightarrow> alert_engine" where
  "add_alert eng a =
     (let inserted = a # alerts eng
      in eng\<lparr>alerts := (if length inserted > max_alerts eng
                         then take (max_alerts eng) inserted else inserted)\<rparr>)"

definition analyze_and_generate_alerts ::
  "alert_engine \<Rightarrow> ring list \<Rightarrow> score_dict \<Rightarrow> score_dict \<Rightarrow> alert list \<times> alert_engine" where
  "analyze_and_generate_alerts eng current_rings risk_scores velocities =
     (let all_alerts =
            detect_new_rings current_rings (prev_rings (previous eng))
            @ detect_risk_spikes risk_scores (prev_risk_scores (previous eng))
            @ detect_velocity_anomalies velocities (prev_velocities (previous eng))
            @ detect_critical_nodes eng risk_scores;
          eng' = foldl add_alert eng all_alerts
      in (all_alerts,
          eng'\<lparr>previous := \<lparr>prev_rings = set (map ring_id current_rings),
                             prev_risk_scores = risk_scores,
                             prev_velocities = velocities\<rparr>\<rparr>))"

text \<open>Running the differ twice on the same state; the alerts of the second run.\<close>

definition second_run_alerts ::
  "alert_engine \<Rightarrow> ring list \<Rightarrow> score_dict \<Rightarrow> score_dict \<Rightarrow> alert list" where
  "second_run_alerts eng rings risk_scores velocities =
     fst (analyze_and_generate_alerts
            (snd (analyze_and_generate_alerts eng rings risk_scores velocities))
            rings risk_scores velocities)"

section \<open>Detection engine: data\<close>

record transaction =
  transaction_id :: string
  sender_id :: account
  receiver_id :: account
  amount :: real
  timestamp :: int

text \<open>
  The directed graph handed to the engine: its nodes and its edges (one per ordered
  pair), both in insertion order. The degree maps of \<^verbatim>\<open>_precompute_metrics\<close>
  are read with \<^verbatim>\<open>.get(node, 0)\<close>, so they are 0 outside the node list.
\<close>

record digraph =
  nodes :: "account list"
  edges :: "(account \<times> account) list"

definition successors :: "digraph \<Rightarrow> account \<Rightarrow> account list" where
  "successors G u = map snd (filter (\<lambda>e. fst e = u) (edges G))"

definition in_degree :: "digraph \<Rightarrow> account \<Rightarrow> nat" where
  "in_degree G n =
     (if n \<in> set (nodes G) then length (filter (\<lambda>e. snd e = n) (edges G)) else 0)"

definition out_degree :: "digraph \<Rightarrow> account \<Rightarrow> nat" where
  "out_degree G n =
     (if n \<in> set (nodes G) then length (filter (\<lambda>e. fst e = n) (edges G)) else 0)"

definition total_degree :: "digraph \<Rightarrow> account \<Rightarrow> nat" where
  "total_degree G n =
     (if n \<in> set (nodes G) then in_degree G n + out_degree G n else 0)"

record fan_in_pattern =
  receiver :: account
  senders :: "account list"
  fi_count :: nat
  fi_time_window :: "int \<times> int"
  fi_total_amount :: real

record fan_out_pattern =
  sender :: account
  receivers :: "account list"
  fo_count :: nat
  fo_time_window :: "int \<times> int"
  fo_total_amount :: real

text \<open>
  One entry of the \<^verbatim>\<open>scores\<close> dict; \<^verbatim>\<open>entry_ring_id\<close> is the key
  \<^verbatim>\<open>ring_id\<close> that \<^verbatim>\<open>assign_ring_ids_to_accounts\<close> adds later.
\<close>

record score_entry =
  score :: real
  factors :: "string list"
  patterns :: "string list"
  risk_level :: string
  entry_ring_id :: "string option"

type_synonym scores = "(account \<times> score_entry) list"

definition default_entry :: score_entry where
  "default_entry =
     \<lparr>score = 0, factors = [], patterns = [], risk_level = ''LOW'', entry_ring_id = None\<rparr>"

text \<open>
  \<^verbatim>\<open>scores[k]\<close> on the \<^verbatim>\<open>defaultdict\<close> followed by an in-place change
  \<open>f\<close> of the entry: an absent key is inserted at the end with the default entry.
\<close>

fun upd :: "account \<Rightarrow> (score_entry \<Rightarrow> score_entry) \<Rightarrow> scores \<Rightarrow> scores" where
  "upd k f [] = [(k, f default_entry)]"
| "upd k f ((k', v) # d) = (if k = k' then (k', f v) # d else (k', v) # upd k f d)"

record engine =
  graph :: digraph
  df :: "transaction list"
  whitelisted_accounts :: "account list"
  detected_cycles :: "account list list"
  detected_fanin :: "fan_in_pattern list"
  detected_fanout :: "fan_out_pattern list"
  detected_chains :: "account list list"
  suspicious_accounts :: scores
  fraud_rings :: "ring list"

text \<open>
  \<^verbatim>\<open>whitelisted_accounts\<close> is a Python set; the list enumerates it and loops
  over it run on \<open>remdups\<close>, each element once.
\<close>

definition df_sorted :: "engine \<Rightarrow> transaction list" where
  "df_sorted e = sort_key timestamp (df e)"

section \<open>Cycle detector\<close>

text \<open>
  \<^verbatim>\<open>detect_cycles\<close> iterates over the generator \<^verbatim>\<open>nx.simple_cycles(self.graph)\<close>
  of the graph library and reads the wall clock before it looks at each cycle. The loop
  is \<^verbatim>\<open>collect_cycles\<close>: it runs over the cycles the generator yields, each paired
  with the reading of \<^verbatim>\<open>time.time() - start_time\<close> taken when it comes out.
  An exception raised inside the loop is caught and leaves the cycles collected so far,
  as if the generator had ended there.
\<close>

definition CYCLE_ENUMERATION_TIMEOUT :: real where
  "CYCLE_ENUMERATION_TIMEOUT = 5"

definition MAX_CYCLES_LIMIT :: nat where
  "MAX_CYCLES_LIMIT = 500"

fun collect_cycles :: "int \<Rightarrow> int \<Rightarrow> (real \<times> account list) list \<Rightarrow> account list list
    \<Rightarrow> account list list" where
  "collect_cycles min_length max_length [] detected = detected"
| "collect_cycles min_length max_length ((elapsed, cycle) # rest) detected =
     (if elapsed > CYCLE_ENUMERATION_TIMEOUT then detected
      else if length detected \<ge> MAX_CYCLES_LIMIT then detected
      else if min_length \<le> int (length cycle) \<and> int (length cycle) \<le> max_length
        then collect_cycles min_length max_length rest (detected @ [cycle])
      else collect_cycles min_length max_length rest detected)"

text \<open>
  Modelled from the spec: the elementary-cycle generator \<^verbatim>\<open>nx.simple_cycles\<close> of
  the graph library, which is not part of the repository. The spec (4.3.1) takes it to be
  Johnson's algorithm or ``a bounded DFS from each candidate node, candidates being nodes
  with both in-degree and out-degree \<open>\<ge>\<close> 1'', with each cycle kept in one rotation
  only. \<^verbatim>\<open>cycles_from\<close> is that search: it extends a path of distinct nodes along
  the edges and yields it whenever an edge leads back to the start. As in Johnson's
  algorithm, the search from a start node visits only nodes that come after it in the
  node order, so that a cycle is found from its earliest node only. The search is bounded
  because every step removes a node from the list of those still allowed.
\<close>

definition candidate :: "digraph \<Rightarrow> account \<Rightarrow> bool" where
  "candidate G v \<longleftrightarrow> in_degree G v \<ge> 1 \<and> out_degree G v \<ge> 1"

fun cycles_from :: "digraph \<Rightarrow> account \<Rightarrow> account list \<Rightarrow> account list \<Rightarrow> account list list"
  and cycles_through :: "digraph \<Rightarrow> account \<Rightarrow> account list \<Rightarrow> account list \<Rightarrow> account list
      \<Rightarrow> account list list" where
  "cycles_from G s allowed path =
     (if (last path, s) \<in> set (edges G) then [path] else [])
     @ cycles_through G s allowed path (successors G (last path))"
| "cycles_through G s allowed path [] = []"
| "cycles_through G s allowed path (w # ws) =
     (if w \<in> set allowed then cycles_from G s (removeAll w allowed) (path @ [w]) else [])
     @ cycles_through G s allowed path ws"

fun cycles_over :: "digraph \<Rightarrow> account list \<Rightarrow> account list list" where
  "cycles_over G [] = []"
| "cycles_over G (s # later) =
     (if candidate G s then cycles_from G s (removeAll s later) [s] else [])
     @ cycles_over G later"

definition simple_cycles :: "digraph \<Rightarrow> account list list" where
  "simple_cycles G = cycles_over G (nodes G)"

text \<open>
  The wall clock is an input: \<^verbatim>\<open>clock i\<close> is the reading of
  \<^verbatim>\<open>time.time() - start_time\<close> at the head of the iteration that looks at the
  cycle of index \<open>i\<close>.
\<close>

definition timed :: "(nat \<Rightarrow> real) \<Rightarrow> 'a list \<Rightarrow> (real \<times> 'a) list" where
  "timed clock xs = zip (map clock [0..<length xs]) xs"

definition detect_cycles ::
  "engine \<Rightarrow> int \<Rightarrow> int \<Rightarrow> (nat \<Rightarrow> real) \<Rightarrow> account list list \<times> engine" where
  "detect_cycles e min_length max_length clock =
     (let all_cycles = simple_cycles (graph e);
          detected = collect_cycles min_length max_length (timed clock all_cycles) []
      in (detected, e\<lparr>detected_cycles := detected\<rparr>))"

text \<open>
  A reading within the time budget; the paths of distinct nodes along the edges that the
  search extends.
\<close>

definition within_budget :: "real \<times> account list \<Rightarrow> bool" where
  "within_budget tc \<longleftrightarrow> fst tc \<le> CYCLE_ENUMERATION_TIMEOUT"

definition open_path :: "digraph \<Rightarrow> account \<Rightarrow> account list \<Rightarrow> bool" where
  "open_path G s p \<longleftrightarrow>
     p \<noteq> [] \<and> hd p = s \<and> distinct p \<and> set p \<subseteq> set (nodes G)
     \<and> list_all (\<lambda>e. e \<in> set (edges G)) (zip p (tl p))"

text \<open>
  An elementary cycle of the graph: distinct nodes, each joined to the next by an edge
  and the last to the first. The length filter of the loop, by name.
\<close>

definition elementary_cycle :: "digraph \<Rightarrow> account list \<Rightarrow> bool" where
  "elementary_cycle G c \<longleftrightarrow>
     c \<noteq> [] \<and> distinct c \<and> set c \<subseteq> set (nodes G)
     \<and> list_all (\<lambda>e. e \<in> set (edges G)) (zip c (rotate1 c))"

definition length_ok :: "int \<Rightarrow> int \<Rightarrow> account list \<Rightarrow> bool" where
  "length_ok min_length max_length c \<longleftrightarrow>
     min_length \<le> int (length c) \<and> int (length c) \<le> max_length"

section \<open>Smurfing detector\<close>

text \<open>
  \<^verbatim>\<open>receiver_groups[row['receiver_id']].append(...)\<close> on a
  \<^verbatim>\<open>defaultdict(list)\<close>: the groups in order of first appearance, each holding
  its rows in the order of \<^verbatim>\<open>df_sorted\<close>. A group entry keeps the whole row;
  the source keeps the counterparty, the timestamp and the amount of it.
\<close>

fun add_to_group :: "account \<Rightarrow> transaction \<Rightarrow> (account \<times> transaction list) list
    \<Rightarrow> (account \<times> transaction list) list" where
  "add_to_group k row [] = [(k, [row])]"
| "add_to_group k row ((k', rows) # g) =
     (if k = k' then (k', rows @ [row]) # g else (k', rows) # add_to_group k row g)"

definition group_rows :: "(transaction \<Rightarrow> account) \<Rightarrow> transaction list
    \<Rightarrow> (account \<times> transaction list) list" where
  "group_rows key rows = fold (\<lambda>row. add_to_group (key row) row) rows []"

text \<open>
  The inner loop over \<open>j\<close>: from position \<open>i\<close> on, the rows up to the first one whose
  timestamp is greater than \<^verbatim>\<open>window_end\<close>.
\<close>

definition window_transactions :: "int \<Rightarrow> transaction list \<Rightarrow> transaction list" where
  "window_transactions window_end rows = takeWhile (\<lambda>t. \<not> timestamp t > window_end) rows"

text \<open>
  The loop over \<open>i\<close>, as a recursion over the rows from position \<open>i\<close> on: the first
  position whose window has at least \<open>threshold\<close> distinct counterparties, with the
  window's rows and bounds. \<^verbatim>\<open>list(set(...))\<close> is \<open>remdups\<close>, each counterparty
  once.
\<close>

fun find_window :: "(transaction \<Rightarrow> account) \<Rightarrow> int \<Rightarrow> int \<Rightarrow> transaction list
    \<Rightarrow> (transaction list \<times> int \<times> int) option" where
  "find_window other threshold time_window [] = None"
| "find_window other threshold time_window (t # ts) =
     (let window_start = timestamp t;
          window_end = window_start + time_window;
          win = window_transactions window_end (t # ts)
      in if int (length (remdups (map other win))) \<ge> threshold
         then Some (win, window_start, window_end)
         else find_window other threshold time_window ts)"

definition fan_in_of :: "int \<Rightarrow> int \<Rightarrow> account \<times> transaction list \<Rightarrow> fan_in_pattern list" where
  "fan_in_of threshold time_window = (\<lambda>(rcv, transactions).
     if int (length transactions) < threshold then []
     else (case find_window sender_id threshold time_window transactions of
             None \<Rightarrow> []
           | Some (win, window_start, window_end) \<Rightarrow>
               [\<lparr>receiver = rcv,
                 senders = remdups (map sender_id win),
                 fi_count = length (remdups (map sender_id win)),
                 fi_time_window = (window_start, window_end),
                 fi_total_amount = sum_list (map amount win)\<rparr>]))"

definition fan_out_of :: "int \<Rightarrow> int \<Rightarrow> account \<times> transaction list \<Rightarrow> fan_out_pattern list" where
  "fan_out_of threshold time_window = (\<lambda>(snd_acc, transactions).
     if int (length transactions) < threshold then []
     else (case find_window receiver_id threshold time_window transactions of
             None \<Rightarrow> []
           | Some (win, window_start, window_end) \<Rightarrow>
               [\<lparr>sender = snd_acc,
                 receivers = remdups (map receiver_id win),
                 fo_count = length (remdups (map receiver_id win)),
                 fo_time_window = (window_start, window_end),
                 fo_total_amount = sum_list (map amount win)\<rparr>]))"

definition adaptive_threshold :: "engine \<Rightarrow> int" where
  "adaptive_threshold e =
     (let num_accounts = length (nodes (graph e))
      in if num_accounts < 50 then 5 else if num_accounts < 200 then 7 else 10)"

definition detect_smurfing_patterns ::
  "engine \<Rightarrow> int option \<Rightarrow> int \<Rightarrow> (fan_in_pattern list \<times> fan_out_pattern list) \<times> engine" where
  "detect_smurfing_patterns e threshold_arg time_window_hours =
     (let threshold = (case threshold_arg of None \<Rightarrow> adaptive_threshold e | Some T \<Rightarrow> T);
          time_window = 3600 * time_window_hours;
          fan_in_patterns =
            concat (map (fan_in_of threshold time_window) (group_rows receiver_id (df_sorted e)));
          fan_out_patterns =
            concat (map (fan_out_of threshold time_window) (group_rows sender_id (df_sorted e)))
      in ((fan_in_patterns, fan_out_patterns),
          e\<lparr>detected_fanin := fan_in_patterns, detected_fanout := fan_out_patterns\<rparr>))"

text \<open>
  For stating what a window holds: the rows of a group whose timestamp lies in the closed
  interval from \<open>s\<close> to \<open>s + w\<close>, and whether that interval has enough distinct senders.
\<close>

definition incoming :: "engine \<Rightarrow> account \<Rightarrow> transaction list" where
  "incoming e r = filter (\<lambda>t. receiver_id t = r) (df_sorted e)"

definition in_window :: "transaction list \<Rightarrow> int \<Rightarrow> int \<Rightarrow> transaction list" where
  "in_window rows s w = filter (\<lambda>t. s \<le> timestamp t \<and> timestamp t \<le> s + w) rows"

definition enough_senders :: "int \<Rightarrow> transaction list \<Rightarrow> bool" where
  "enough_senders threshold rows \<longleftrightarrow> threshold \<le> int (card (sender_id ` set rows))"

text \<open>
  What \<^verbatim>\<open>find_window\<close> is checked against: no timestamp of the group opens a
  closed window with enough senders, or the result is the closed window at the least
  such timestamp.
\<close>

definition first_window_ok ::
  "int \<Rightarrow> int \<Rightarrow> transaction list \<Rightarrow> (transaction list \<times> int \<times> int) option \<Rightarrow> bool" where
  "first_window_ok T w g res =
     (case res of
        None \<Rightarrow> \<forall>x\<in>set g. \<not> enough_senders T (in_window g (timestamp x) w)
      | Some (win, ws, we) \<Rightarrow>
          \<exists>t\<in>set g. ws = timestamp t \<and> we = timestamp t + w \<and>
            win = in_window g (timestamp t) w \<and> enough_senders T win \<and>
            (\<forall>u\<in>set g. enough_senders T (in_window g (timestamp u) w)
                \<longrightarrow> timestamp t \<le> timestamp u))"

definition smurfing_threshold :: "engine \<Rightarrow> int option \<Rightarrow> int" where
  "smurfing_threshold e threshold_arg =
     (case threshold_arg of None \<Rightarrow> adaptive_threshold e | Some T \<Rightarrow> T)"

definition fan_in_patterns :: "engine \<Rightarrow> int option \<Rightarrow> int \<Rightarrow> fan_in_pattern list" where
  "fan_in_patterns e threshold_arg hours = fst (fst (detect_smurfing_patterns e threshold_arg hours))"

section \<open>Suspicion scorer\<close>

definition add_contribution :: "real \<Rightarrow> string \<Rightarrow> string \<Rightarrow> score_entry \<Rightarrow> score_entry" where
  "add_contribution pts factor pat s =
     s\<lparr>score := score s + pts, factors := factors s @ [factor], patterns := patterns s @ [pat]\<rparr>"

definition score_cycles :: "account list list \<Rightarrow> scores \<Rightarrow> scores" where
  "score_cycles cycles =
     fold (\<lambda>cycle. fold (\<lambda>acc. upd acc (add_contribution 40 ''cycle_member'' ''cycle'')) cycle)
       cycles"

definition score_fanin :: "fan_in_pattern list \<Rightarrow> scores \<Rightarrow> scores" where
  "score_fanin ps =
     fold (\<lambda>p. upd (receiver p) (add_contribution 30 ''fan_in_hub'' ''fan_in'')) ps"

definition score_fanout :: "fan_out_pattern list \<Rightarrow> scores \<Rightarrow> scores" where
  "score_fanout ps =
     fold (\<lambda>p. upd (sender p) (add_contribution 30 ''fan_out_hub'' ''fan_out'')) ps"

text \<open>\<^verbatim>\<open>chain[1:-1]\<close>: the nodes strictly between the first and the last.\<close>

definition interior :: "'a list \<Rightarrow> 'a list" where
  "interior chain = butlast (tl chain)"

definition score_chains :: "account list list \<Rightarrow> scores \<Rightarrow> scores" where
  "score_chains chs =
     fold (\<lambda>chain. fold (\<lambda>acc. upd acc (add_contribution 20 ''shell_intermediate'' ''shell_chain''))
                      (interior chain))
       chs"

definition account_txns :: "engine \<Rightarrow> account \<Rightarrow> transaction list" where
  "account_txns e acc =
     filter (\<lambda>t. sender_id t = acc \<or> receiver_id t = acc) (df_sorted e)"

definition rapid_count :: "int list \<Rightarrow> nat" where
  "rapid_count ts = length (filter (\<lambda>(a, b). b - a < 86400) (zip ts (tl ts)))"

definition velocity_multiplier :: "nat \<Rightarrow> real" where
  "velocity_multiplier r = min (1 + real r * (1 / 10)) 2"

definition digit_char :: "nat \<Rightarrow> char" where
  "digit_char n = ''0123456789'' ! (n mod 10)"

text \<open>
  \<^verbatim>\<open>f'velocity_x{multiplier:.1f}'\<close>: the multiplier is a whole number of tenths
  between 1.2 and 2.0.
\<close>

definition velocity_factor :: "nat \<Rightarrow> string" where
  "velocity_factor r =
     (let tenths = min (10 + r) 20
      in ''velocity_x'' @ [digit_char (tenths div 10), CHR ''.'', digit_char (tenths mod 10)])"

definition apply_velocity :: "engine \<Rightarrow> account \<Rightarrow> scores \<Rightarrow> scores" where
  "apply_velocity e acc sc =
     (let timestamps = sort (map timestamp (account_txns e acc))
      in if length timestamps > 1 \<and> rapid_count timestamps \<ge> 2 then
           upd acc (\<lambda>s. s\<lparr>score := score s * velocity_multiplier (rapid_count timestamps),
                            factors := factors s @ [velocity_factor (rapid_count timestamps)]\<rparr>) sc
         else sc)"

definition smurfing_members :: "engine \<Rightarrow> account set" where
  "smurfing_members e =
     (\<Union>p \<in> set (detected_fanin e). insert (receiver p) (set (senders p)))
     \<union> (\<Union>p \<in> set (detected_fanout e). insert (sender p) (set (receivers p)))"

definition apply_whitelist :: "engine \<Rightarrow> account \<Rightarrow> scores \<Rightarrow> scores" where
  "apply_whitelist e acc sc =
     (if acc \<in> fst ` set sc then
        (if acc \<in> smurfing_members e then
           upd acc (\<lambda>s. s\<lparr>score := max (score s * (1 / 2)) 30,
                            factors := factors s @ [''whitelisted_but_smurfing_member'']\<rparr>) sc
         else
           upd acc (\<lambda>s. s\<lparr>score := 0, factors := [''whitelisted_legitimate_account''],
                            patterns := [], risk_level := ''LOW''\<rparr>) sc)
      else sc)"

definition apply_spread_penalty :: "engine \<Rightarrow> account \<Rightarrow> scores \<Rightarrow> scores" where
  "apply_spread_penalty e acc sc =
     (if acc \<in> set (whitelisted_accounts e) then sc
      else
        (let txns = account_txns e acc
         in if length txns > 0 then
              (let time_span = Max (set (map timestamp txns)) - Min (set (map timestamp txns));
                   days_span = real_of_int time_span / 86400
               in if days_span > 7 \<and> length txns < 20 then
                    upd acc (\<lambda>s. s\<lparr>score := score s * (7 / 10),
                                     factors := factors s @ [''spread_over_time'']\<rparr>) sc
                  else sc)
            else sc))"

definition cap_entry :: "score_entry \<Rightarrow> score_entry" where
  "cap_entry s =
     (let score_val = min (score s) 100
      in s\<lparr>score := score_val,
           risk_level := (if score_val \<ge> 70 then ''HIGH''
                          else if score_val \<ge> 40 then ''MEDIUM''
                          else ''LOW'')\<rparr>)"

text \<open>
  The stages of \<^verbatim>\<open>calculate_suspicion_scores\<close>, in the order of the source:
  base contributions (steps 1 to 4), velocity multiplier (5), whitelist protection (6),
  spread-over-time penalty (7), cap and risk level (the second step 7 of the source).
\<close>

definition base_scores :: "engine \<Rightarrow> scores" where
  "base_scores e =
     score_chains (detected_chains e)
       (score_fanout (detected_fanout e)
          (score_fanin (detected_fanin e)
             (score_cycles (detected_cycles e) [])))"

definition velocity_scores :: "engine \<Rightarrow> scores" where
  "velocity_scores e = fold (apply_velocity e) (nodes (graph e)) (base_scores e)"

definition whitelist_scores :: "engine \<Rightarrow> scores" where
  "whitelist_scores e =
     fold (apply_whitelist e) (remdups (whitelisted_accounts e)) (velocity_scores e)"

definition penalty_scores :: "engine \<Rightarrow> scores" where
  "penalty_scores e = fold (apply_spread_penalty e) (nodes (graph e)) (whitelist_scores e)"

definition calculate_suspicion_scores :: "engine \<Rightarrow> scores \<times> engine" where
  "calculate_suspicion_scores e =
     (let sc = map (\<lambda>(acc, s). (acc, cap_entry s)) (penalty_scores e)
      in (sc, e\<lparr>suspicious_accounts := sc\<rparr>))"

section \<open>Ring constructor\<close>

function str_nat :: "nat \<Rightarrow> string" where
  "str_nat n = (if n < 10 then [digit_char n] else str_nat (n div 10) @ [digit_char n])"
  by pat_completeness auto
termination
  by (relation "measure id") auto

text \<open>\<^verbatim>\<open>f'{n:03d}'\<close>: decimal, padded with zeros to at least three digits.\<close>

definition fmt03 :: "nat \<Rightarrow> string" where
  "fmt03 n = replicate (3 - length (str_nat n)) CHR ''0'' @ str_nat n"

definition ring_name :: "nat \<Rightarrow> string" where
  "ring_name n = ''RING_'' @ fmt03 n"

definition member_score :: "engine \<Rightarrow> account \<Rightarrow> real" where
  "member_score e acc =
     (case map_of (suspicious_accounts e) acc of None \<Rightarrow> 0 | Some s \<Rightarrow> score s)"

definition avg_score :: "engine \<Rightarrow> account list \<Rightarrow> real" where
  "avg_score e ms =
     (if ms \<noteq> [] then sum_list (map (member_score e) ms) / real (length ms) else 0)"

text \<open>The running \<^verbatim>\<open>ring_id_counter\<close>: the patterns of one loop, numbered from \<open>c\<close>.\<close>

definition numbered :: "nat \<Rightarrow> 'a list \<Rightarrow> (nat \<times> 'a) list" where
  "numbered c xs = zip [c..<c + length xs] xs"

text \<open>The arrow of the two smurfing descriptions, as its UTF-8 bytes.\<close>

definition arrow :: string where
  "arrow = [CHR 0xE2, CHR 0x86, CHR 0x92]"

definition make_ring :: "engine \<Rightarrow> nat \<Rightarrow> string \<Rightarrow> account list \<Rightarrow> string \<Rightarrow> ring" where
  "make_ring e n ptype ms descr =
     \<lparr>ring_id = Some (ring_name n),
      pattern_type = Some ptype,
      member_accounts = Some ms,
      member_count = Some (length ms),
      risk_score = Some (avg_score e ms),
      description = Some descr,
      members = None,
      pattern = None\<rparr>"

definition cycle_ring :: "engine \<Rightarrow> nat \<times> account list \<Rightarrow> ring" where
  "cycle_ring e = (\<lambda>(n, cycle).
     make_ring e n ''cycle'' cycle
       (''Circular fund routing through '' @ str_nat (length cycle) @ '' accounts''))"

definition fanin_ring :: "engine \<Rightarrow> nat \<times> fan_in_pattern \<Rightarrow> ring" where
  "fanin_ring e = (\<lambda>(n, p).
     make_ring e n ''fan_in'' (receiver p # senders p)
       (''Smurfing collection: '' @ str_nat (fi_count p) @ '' senders '' @ arrow @ '' 1 receiver''))"

definition fanout_ring :: "engine \<Rightarrow> nat \<times> fan_out_pattern \<Rightarrow> ring" where
  "fanout_ring e = (\<lambda>(n, p).
     make_ring e n ''fan_out'' (sender p # receivers p)
       (''Smurfing distribution: 1 sender '' @ arrow @ '' '' @ str_nat (fo_count p) @ '' receivers''))"

definition chain_ring :: "engine \<Rightarrow> nat \<times> account list \<Rightarrow> ring" where
  "chain_ring e = (\<lambda>(n, chain).
     make_ring e n ''shell_chain'' chain
       (''Layered shell network: '' @ str_nat (length chain) @ ''-hop chain''))"

text \<open>The rings in construction order, before the final sort.\<close>

definition rings_in_construction_order :: "engine \<Rightarrow> ring list" where
  "rings_in_construction_order e =
     (let c1 = 1;
          c2 = c1 + length (detected_cycles e);
          c3 = c2 + length (detected_fanin e);
          c4 = c3 + length (detected_fanout e)
      in map (cycle_ring e) (numbered c1 (detected_cycles e))
         @ map (fanin_ring e) (numbered c2 (detected_fanin e))
         @ map (fanout_ring e) (numbered c3 (detected_fanout e))
         @ map (chain_ring e) (numbered c4 (detected_chains e)))"

text \<open>
  \<^verbatim>\<open>rings.sort(key=lambda x: x['risk_score'], reverse=True)\<close>: Python's sort is
  stable, also with \<^verbatim>\<open>reverse=True\<close>, so it is the stable insertion sort on the
  negated key. Every constructed ring has the key.
\<close>

definition ring_risk :: "ring \<Rightarrow> real" where
  "ring_risk r = dict_get (risk_score r) 0"

definition construct_fraud_rings :: "engine \<Rightarrow> ring list \<times> engine" where
  "construct_fraud_rings e =
     (let rings = sort_key (\<lambda>r. - ring_risk r) (rings_in_construction_order e)
      in (rings, e\<lparr>fraud_rings := rings\<rparr>))"

section \<open>Response builder\<close>

text \<open>
  \<^verbatim>\<open>round(x, nd)\<close>, idealised on the reals: to the nearest multiple of
  \<open>10\<^sup>-\<^sup>n\<^sup>d\<close>, a tie going to the even one.
\<close>

definition py_round :: "real \<Rightarrow> nat \<Rightarrow> real" where
  "py_round x nd =
     (let y = x * 10 ^ nd;
          f = \<lfloor>y\<rfloor>;
          d = y - of_int f
      in of_int (if d < 1 / 2 then f else if d > 1 / 2 then f + 1
                 else if even f then f else f + 1) / 10 ^ nd)"

record account_entry =
  ae_account_id :: string
  suspicion_score :: real
  detected_patterns :: "string list"
  ae_ring_id :: "string option"

record ring_entry =
  re_ring_id :: string
  re_member_accounts :: "string list"
  re_pattern_type :: string
  re_risk_score :: real

text \<open>The summary without \<^verbatim>\<open>processing_time_seconds\<close>, which is read off the clock.\<close>

record summary =
  total_accounts_analyzed :: nat
  suspicious_accounts_flagged :: nat
  fraud_rings_detected :: nat

record response =
  resp_suspicious_accounts :: "account_entry list"
  resp_fraud_rings :: "ring_entry list"
  resp_summary :: summary

text \<open>
  \<^verbatim>\<open>sub in s\<close> on strings, and \<^verbatim>\<open>_is_sublist\<close> of the detection engine:
  some window \<^verbatim>\<open>mainlist[i:i+n]\<close> with \<open>i\<close> in \<^verbatim>\<open>range(m - n + 1)\<close> equals
  the sublist.
\<close>

definition is_sublist :: "'a list \<Rightarrow> 'a list \<Rightarrow> bool" where
  "is_sublist sublist mainlist =
     (let n = length sublist; m = length mainlist
      in list_ex (\<lambda>i. take n (drop i mainlist) = sublist) [0..<nat (int m - int n + 1)])"

definition lower_char :: "char \<Rightarrow> char" where
  "lower_char c =
     (case map_of (zip ''ABCDEFGHIJKLMNOPQRSTUVWXYZ'' ''abcdefghijklmnopqrstuvwxyz'') c of
        None \<Rightarrow> c | Some l \<Rightarrow> l)"

definition lower :: "string \<Rightarrow> string" where
  "lower s = map lower_char s"

definition pattern_mapping :: "string \<rightharpoonup> string" where
  "pattern_mapping =
     [''cycle'' \<mapsto> ''cycle_length_3'', ''fan_in'' \<mapsto> ''fan_in_smurfing'',
      ''fan_out'' \<mapsto> ''fan_out_smurfing'', ''shell_chain'' \<mapsto> ''shell_chain'']"

definition format_patterns :: "score_entry \<Rightarrow> string list" where
  "format_patterns account_data =
     (let mapped = concat (map (\<lambda>p. case pattern_mapping p of None \<Rightarrow> [] | Some q \<Rightarrow> [q])
                             (patterns account_data));
          velocity = (if list_ex (\<lambda>f. is_sublist ''velocity'' (lower f)) (factors account_data)
                      then [''high_velocity''] else [])
      in sort (remdups (mapped @ velocity)))"

definition build_suspicious_accounts :: "scores \<Rightarrow> account_entry list" where
  "build_suspicious_accounts raw_accounts =
     sort_key (\<lambda>x. (- suspicion_score x, ae_account_id x))
       (map (\<lambda>(acc, data).
               \<lparr>ae_account_id = acc,
                suspicion_score = py_round (score data) 1,
                detected_patterns = format_patterns data,
                ae_ring_id = entry_ring_id data\<rparr>)
          (filter (\<lambda>(acc, data). score data \<noteq> 0) raw_accounts))"

definition build_fraud_rings :: "ring list \<Rightarrow> ring_entry list" where
  "build_fraud_rings raw_rings =
     map (\<lambda>(idx, r).
            \<lparr>re_ring_id = ring_name idx,
             re_member_accounts = sort (dict_get (member_accounts r) []),
             re_pattern_type = dict_get (pattern_type r) ''unknown'',
             re_risk_score = py_round (dict_get (risk_score r) 0) 1\<rparr>)
       (numbered 1 raw_rings)"

definition build_summary :: "nat \<Rightarrow> nat \<Rightarrow> nat \<Rightarrow> summary" where
  "build_summary total_accounts suspicious_count rings_count =
     \<lparr>total_accounts_analyzed = total_accounts,
      suspicious_accounts_flagged = suspicious_count,
      fraud_rings_detected = rings_count\<rparr>"

definition build_response :: "engine \<Rightarrow> nat \<Rightarrow> response" where
  "build_response detection_results total_accounts =
     (let sa = build_suspicious_accounts (suspicious_accounts detection_results);
          fr = build_fraud_rings (fraud_rings detection_results)
      in \<lparr>resp_suspicious_accounts = sa,
          resp_fraud_rings = fr,
          resp_summary = build_summary total_accounts (length sa) (length fr)\<rparr>)"

text \<open>
  \<^verbatim>\<open>assign_ring_ids_to_accounts\<close>: each account takes the id, by position, of
  the first ring that lists it.
\<close>

definition account_to_ring :: "ring list \<Rightarrow> account \<rightharpoonup> string" where
  "account_to_ring rings =
     fold (\<lambda>(idx, r) m.
             fold (\<lambda>member m'. if member \<notin> dom m' then m'(member \<mapsto> ring_name idx) else m')
               (dict_get (member_accounts r) []) m)
       (numbered 1 rings) Map.empty"

definition assign_ring_ids_to_accounts :: "engine \<Rightarrow> engine" where
  "assign_ring_ids_to_accounts detection_results =
     detection_results
       \<lparr>suspicious_accounts :=
          map (\<lambda>(acc, data).
                 (acc, data\<lparr>entry_ring_id := account_to_ring (fraud_rings detection_results) acc\<rparr>))
            (suspicious_accounts detection_results)\<rparr>"

text \<open>
  The pipeline behind the canonical response, from the detected patterns on:
  \<^verbatim>\<open>run_full_detection\<close> scores the accounts and constructs the rings, then
  \<^verbatim>\<open>detect_fraud\<close> assigns ring ids to the accounts and builds the response.
\<close>

definition canonical_response :: "engine \<Rightarrow> response" where
  "canonical_response e =
     (let e1 = snd (calculate_suspicion_scores e);
          e2 = snd (construct_fraud_rings e1);
          e3 = assign_ring_ids_to_accounts e2
      in build_response e3 (length (nodes (graph e))))"

section \<open>Reading the score dict\<close>

text \<open>
  The entry that \<^verbatim>\<open>scores[k]\<close> reads (the default for an absent key), the score
  that \<^verbatim>\<open>scores.get(k, {}).get('score', 0)\<close> reads, the roles that earn a base
  contribution in steps 1 to 4, and what step 6 does to the entry of a whitelisted account.
\<close>

definition entry_of :: "scores \<Rightarrow> account \<Rightarrow> score_entry" where
  "entry_of d k = (case map_of d k of None \<Rightarrow> default_entry | Some v \<Rightarrow> v)"

definition score_of :: "scores \<Rightarrow> account \<Rightarrow> real" where
  "score_of d k = (case map_of d k of None \<Rightarrow> 0 | Some v \<Rightarrow> score v)"

definition scored_role :: "engine \<Rightarrow> account \<Rightarrow> bool" where
  "scored_role e a \<longleftrightarrow>
     (\<exists>c \<in> set (detected_cycles e). a \<in> set c)
     \<or> (\<exists>p \<in> set (detected_fanin e). a = receiver p)
     \<or> (\<exists>p \<in> set (detected_fanout e). a = sender p)
     \<or> (\<exists>c \<in> set (detected_chains e). a \<in> set (interior c))"

definition whitelist_entry :: "engine \<Rightarrow> account \<Rightarrow> score_entry \<Rightarrow> score_entry" where
  "whitelist_entry e a s =
     (if a \<in> smurfing_members e then
        s\<lparr>score := max (score s * (1 / 2)) 30,
          factors := factors s @ [''whitelisted_but_smurfing_member'']\<rparr>
      else s\<lparr>score := 0, factors := [''whitelisted_legitimate_account''],
             patterns := [], risk_level := ''LOW''\<rparr>)"

section \<open>Shell-chain detector\<close>

text \<open>
  \<^verbatim>\<open>edge_timestamps\<close>: for each ordered pair the timestamps of its transactions, in
  the order of the frame; an edge is a key of the dict when the list is not empty, and
  \<open>edge_ts\<close> is its earliest timestamp.
\<close>

definition edge_timestamps :: "engine \<Rightarrow> account \<times> account \<Rightarrow> int list" where
  "edge_timestamps e edge =
     map timestamp (filter (\<lambda>t. (sender_id t, receiver_id t) = edge) (df e))"

definition edge_ts :: "engine \<Rightarrow> account \<times> account \<Rightarrow> int" where
  "edge_ts e edge = Min (set (edge_timestamps e edge))"

type_synonym queue_item = "account \<times> account list \<times> int option"

text \<open>
  A queue entry is \<open>(current, path, last_timestamp)\<close>. A path is accepted when no node
  strictly between its ends has a total degree above \<open>max_degree\<close>; \<open>explore\<close> is the
  loop over the successors of the current node.
\<close>

definition chain_valid :: "engine \<Rightarrow> int \<Rightarrow> account list \<Rightarrow> bool" where
  "chain_valid e max_degree path =
     list_all (\<lambda>n. \<not> int (total_degree (graph e) n) > max_degree) (interior path)"

definition explore :: "engine \<Rightarrow> int \<Rightarrow> queue_item \<Rightarrow> queue_item list" where
  "explore e max_degree = (\<lambda>(current, path, last_ts).
     concat (map (\<lambda>neighbor.
        if neighbor \<in> set path then []
        else if length path > 1 \<and> int (total_degree (graph e) neighbor) > max_degree then []
        else if edge_timestamps e (current, neighbor) \<noteq> [] then
          (if last_ts \<noteq> None \<and> edge_ts e (current, neighbor) < the last_ts then []
           else [(neighbor, path @ [neighbor], Some (edge_ts e (current, neighbor)))])
        else [])
       (successors (graph e) current)))"

text \<open>
  The \<^verbatim>\<open>while queue\<close> loop. It ends because a path is extended only while it has
  fewer than \<open>min_length + 2\<close> nodes and every node has at most as many successors as
  the graph has edges; \<open>item_weight\<close> counts that down.
\<close>

definition item_weight :: "engine \<Rightarrow> int \<Rightarrow> queue_item \<Rightarrow> nat" where
  "item_weight e min_length = (\<lambda>(current, path, last_ts).
     Suc (length (edges (graph e))) ^ (nat (min_length + 2) - length path))"

function bfs :: "engine \<Rightarrow> int \<Rightarrow> int \<Rightarrow> queue_item list \<Rightarrow> account list list
    \<Rightarrow> account list list" where
  "bfs e min_length max_degree [] found = found"
| "bfs e min_length max_degree ((current, path, last_ts) # queue) found =
     (if int (length path) \<ge> min_length \<and> chain_valid e max_degree path
        then bfs e min_length max_degree queue (found @ [path])
      else if int (length path) \<ge> min_length + 2
        then bfs e min_length max_degree queue found
      else bfs e min_length max_degree
             (queue @ explore e max_degree (current, path, last_ts)) found)"
  by pat_completeness auto
termination
proof (relation "measure (\<lambda>(e, min_length, max_degree, queue, found).
          sum_list (map (item_weight e min_length) queue))")
  show "wf (measure (\<lambda>(e, min_length, max_degree, queue, found).
          sum_list (map (item_weight e min_length) queue)))"
    by simp
next
  fix e :: engine and min_length max_degree :: int and current :: account
    and path :: "account list" and last_ts :: "int option"
    and queue :: "queue_item list" and found :: "account list list"
  have pos: "0 < item_weight e min_length (current, path, last_ts)"
    by (simp add: item_weight_def)
  show "((e, min_length, max_degree, queue, found @ [path]),
         (e, min_length, max_degree, (current, path, last_ts) # queue, found))
        \<in> measure (\<lambda>(e, min_length, max_degree, queue, found).
          sum_list (map (item_weight e min_length) queue))"
    using pos by simp
  show "((e, min_length, max_degree, queue, found),
         (e, min_length, max_degree, (current, path, last_ts) # queue, found))
        \<in> measure (\<lambda>(e, min_length, max_degree, queue, found).
          sum_list (map (item_weight e min_length) queue))"
    using pos by simp
  assume short: "\<not> min_length + 2 \<le> int (length path)"
  let ?B = "Suc (length (edges (graph e)))"
  let ?k = "nat (min_length + 2) - length path"
  let ?children = "explore e max_degree (current, path, last_ts)"
  have k: "?k = Suc (?k - 1)" using short by auto
  have child_weight: "\<forall>c\<in>set ?children. item_weight e min_length c = ?B ^ (?k - 1)"
    by (auto simp: explore_def item_weight_def split: if_splits)
  have "length ?children \<le> length (successors (graph e) current)"
  proof -
    have bound: "length (concat (map f xs)) \<le> length xs"
      if "\<forall>x. length (f x) \<le> Suc 0" for f :: "account \<Rightarrow> queue_item list" and xs
    proof (induction xs)
      case Nil then show ?case by simp
    next
      case (Cons x xs) then show ?case using that[rule_format, of x] by simp
    qed
    show ?thesis unfolding explore_def prod.case by (rule bound) simp
  qed
  also have "\<dots> \<le> length (edges (graph e))"
    by (simp add: successors_def)
  finally have count: "length ?children \<le> length (edges (graph e))" .
  have "sum_list (map (item_weight e min_length) ?children) = length ?children * ?B ^ (?k - 1)"
    using child_weight by (simp add: sum_list_triv cong: map_cong)
  also have "\<dots> \<le> length (edges (graph e)) * ?B ^ (?k - 1)"
    using count by simp
  also have "\<dots> < ?B * ?B ^ (?k - 1)"
    by simp
  also have "\<dots> = ?B ^ ?k"
    using k by (metis power_Suc)
  finally have "sum_list (map (item_weight e min_length) ?children)
      < item_weight e min_length (current, path, last_ts)"
    by (simp add: item_weight_def)
  then show "((e, min_length, max_degree, queue @ ?children, found),
         (e, min_length, max_degree, (current, path, last_ts) # queue, found))
        \<in> measure (\<lambda>(e, min_length, max_degree, queue, found).
          sum_list (map (item_weight e min_length) queue))"
    by simp
qed


definition all_detected_chains :: "engine \<Rightarrow> int \<Rightarrow> int \<Rightarrow> account list list" where
  "all_detected_chains e min_length max_degree =
     fold (\<lambda>start_node found.
             if out_degree (graph e) start_node = 0 then found
             else bfs e min_length max_degree [(start_node, [start_node], None)] found)
       (nodes (graph e)) []"

definition detect_shell_chains :: "engine \<Rightarrow> int \<Rightarrow> int \<Rightarrow> account list list \<times> engine" where
  "detect_shell_chains e min_length max_degree =
     (let found = all_detected_chains e min_length max_degree;
          unique_chains =
            filter (\<lambda>chain. \<not> list_ex (\<lambda>other. chain \<noteq> other \<and> is_sublist chain other) found)
              found
      in (unique_chains, e\<lparr>detected_chains := unique_chains\<rparr>))"

text \<open>
  The consecutive edges of a path, and the properties carried by the entries of the
  queue and by the accepted paths.
\<close>

definition path_edges :: "account list \<Rightarrow> (account \<times> account) list" where
  "path_edges path = zip path (tl path)"

definition good_chain :: "engine \<Rightarrow> int \<Rightarrow> int \<Rightarrow> account list \<Rightarrow> bool" where
  "good_chain e min_length max_degree path \<longleftrightarrow>
     distinct path
     \<and> min_length \<le> int (length path)
     \<and> list_all (\<lambda>n. int (total_degree (graph e) n) \<le> max_degree) (interior path)
     \<and> list_all (\<lambda>edge. edge_timestamps e edge \<noteq> []) (path_edges path)
     \<and> sorted (map (edge_ts e) (path_edges path))"

definition item_ok :: "engine \<Rightarrow> queue_item \<Rightarrow> bool" where
  "item_ok e = (\<lambda>(current, path, last_ts).
     path \<noteq> [] \<and> last path = current \<and> distinct path
     \<and> list_all (\<lambda>edge. edge_timestamps e edge \<noteq> []) (path_edges path)
     \<and> sorted (map (edge_ts e) (path_edges path))
     \<and> last_ts = (if path_edges path = [] then None
                   else Some (edge_ts e (last (path_edges path)))))"

section \<open>Validator\<close>

text \<open>
  The frame that \<^verbatim>\<open>validate_csv_data\<close> receives from the CSV reader. The
  conversions are those of the data-frame library and are inputs of the model: an amount
  cell holds the float that \<^verbatim>\<open>pd.to_numeric(..., errors='coerce')\<close> makes of it,
  \<open>NaN\<close> when the cell does not convert (a negative number converts, and so do the
  spellings of infinity); a timestamp cell holds the instant that
  \<^verbatim>\<open>pd.to_datetime(..., format=TIMESTAMP_FORMAT, errors='coerce')\<close> makes of it,
  in seconds, \<open>None\<close> for \<^verbatim>\<open>NaT\<close>. Row positions are the default index
  \<open>0, 1, ...\<close>. A raised \<^verbatim>\<open>ValidationError\<close> is the left summand, with the data
  its message is built from.
\<close>

datatype float64 = Finite real | PosInf | NegInf | NaN

record raw_row =
  row_transaction_id :: string
  row_sender_id :: string
  row_receiver_id :: string
  row_amount :: float64
  row_timestamp :: "int option"

record dataframe =
  frame_columns :: "string list"
  frame_rows :: "raw_row list"

definition EXPECTED_COLUMNS :: "string list" where
  "EXPECTED_COLUMNS = [''transaction_id'', ''sender_id'', ''receiver_id'', ''amount'', ''timestamp'']"

datatype ValidationError =
    EmptyCsv
  | ExtraColumns "string set"
  | MissingColumns "string set"
  | WrongOrder "string list"
  | NamesMismatch "string list"
  | DuplicateIds "string list" bool
  | InvalidAmounts "nat list" bool
  | InvalidTimestamps "nat list"

definition validate_csv_structure :: "dataframe \<Rightarrow> ValidationError + unit" where
  "validate_csv_structure frame =
     (let actual_columns = frame_columns frame
      in if actual_columns \<noteq> EXPECTED_COLUMNS then
           (if length actual_columns \<noteq> length EXPECTED_COLUMNS then
              (if length actual_columns > length EXPECTED_COLUMNS
               then Inl (ExtraColumns (set actual_columns - set EXPECTED_COLUMNS))
               else Inl (MissingColumns (set EXPECTED_COLUMNS - set actual_columns)))
            else
              (if set actual_columns = set EXPECTED_COLUMNS
               then Inl (WrongOrder actual_columns)
               else Inl (NamesMismatch actual_columns)))
         else Inr ())"

definition first_seen :: "'a list \<Rightarrow> 'a list" where
  "first_seen xs = rev (remdups (rev xs))"

definition validate_transaction_ids :: "dataframe \<Rightarrow> ValidationError + unit" where
  "validate_transaction_ids frame =
     (let ids = map row_transaction_id (frame_rows frame);
          duplicates = filter (\<lambda>r. count_list ids (row_transaction_id r) > 1) (frame_rows frame)
      in if duplicates \<noteq> [] then
           (let duplicate_ids = first_seen (map row_transaction_id duplicates)
            in Inl (DuplicateIds (take 5 duplicate_ids) (length duplicate_ids > 5)))
         else Inr ())"

definition invalid_positions :: "('a \<Rightarrow> bool) \<Rightarrow> 'a list \<Rightarrow> nat list" where
  "invalid_positions bad xs = filter (\<lambda>i. bad (xs ! i)) [0..<length xs]"

definition validate_amounts :: "dataframe \<Rightarrow> ValidationError + unit" where
  "validate_amounts frame =
     (let invalid = invalid_positions (\<lambda>r. row_amount r = NaN) (frame_rows frame)
      in if invalid \<noteq> [] then Inl (InvalidAmounts (take 5 invalid) (length invalid > 5))
         else Inr ())"

definition validate_timestamps :: "dataframe \<Rightarrow> ValidationError + unit" where
  "validate_timestamps frame =
     (let invalid = invalid_positions (\<lambda>r. row_timestamp r = None) (frame_rows frame)
      in if invalid \<noteq> [] then Inl (InvalidTimestamps (take 5 invalid))
         else Inr ())"

definition validate_csv_data :: "dataframe \<Rightarrow> ValidationError + dataframe" where
  "validate_csv_data frame =
     (if frame_rows frame = [] \<or> frame_columns frame = [] then Inl EmptyCsv
      else case validate_csv_structure frame of Inl err \<Rightarrow> Inl err | Inr _ \<Rightarrow>
           (case validate_transaction_ids frame of Inl err \<Rightarrow> Inl err | Inr _ \<Rightarrow>
           (case validate_amounts frame of Inl err \<Rightarrow> Inl err | Inr _ \<Rightarrow>
           (case validate_timestamps frame of Inl err \<Rightarrow> Inl err | Inr _ \<Rightarrow> Inr frame))))"

section \<open>Risk intelligence engine\<close>

text \<open>
  \<^verbatim>\<open>RiskIntelligenceEngine\<close>: the graph, the transactions, the fraud rings and the
  basic scores it is built from, the cached cycles and the whitelist (both empty when
  the caller leaves them out), and the wall clock its own cycle enumeration reads.
  The three centrality maps come from the graph library
  (\<^verbatim>\<open>nx.degree_centrality\<close>, \<^verbatim>\<open>nx.betweenness_centrality\<close>,
  \<^verbatim>\<open>nx.pagerank\<close>, the last two replaced by 0 everywhere when the library raises)
  and are inputs of the model. A missing dict key raises \<^verbatim>\<open>KeyError\<close>.
\<close>

datatype py_error = KeyError

record centrality_measures =
  degree_centrality :: "account \<Rightarrow> real"
  betweenness :: "account \<Rightarrow> real"
  pagerank :: "account \<Rightarrow> real"

record risk_engine =
  rk_graph :: digraph
  rk_df :: "transaction list"
  rk_fraud_rings :: "ring list"
  basic_scores :: scores
  cached_cycles :: "account list list"
  rk_clock :: "nat \<Rightarrow> real"
  rk_whitelisted_accounts :: "account list"

text \<open>
  Each of the five factor scores is computed for every node of the graph; the model
  gives the score of one node.
\<close>

definition calculate_degree_centrality_score ::
  "centrality_measures \<Rightarrow> account \<Rightarrow> real" where
  "calculate_degree_centrality_score cm node =
     (let degree_score = degree_centrality cm node * 40;
          betweenness_score = betweenness cm node * 30;
          pagerank_score = pagerank cm node * 1000 * 30
      in min (degree_score + betweenness_score + pagerank_score) 100)"

text \<open>
  The transactions of an account in timestamp order, and the gaps in seconds between
  consecutive ones.
\<close>

definition rk_account_txns :: "risk_engine \<Rightarrow> account \<Rightarrow> transaction list" where
  "rk_account_txns ri acc =
     sort_key timestamp (filter (\<lambda>t. sender_id t = acc \<or> receiver_id t = acc) (rk_df ri))"

definition time_gaps :: "int list \<Rightarrow> real list" where
  "time_gaps ts = map (\<lambda>(a, b). real_of_int (b - a)) (zip ts (tl ts))"

definition calculate_transaction_velocity_score :: "risk_engine \<Rightarrow> account \<Rightarrow> real" where
  "calculate_transaction_velocity_score ri acc =
     (let txns = rk_account_txns ri acc
      in if length txns < 2 then 0
         else
           (let timestamps = map timestamp txns;
                time_span = Max (set timestamps) - Min (set timestamps);
                total_seconds = max (real_of_int time_span) 1;
                total_hours = total_seconds / 3600;
                txn_per_hour = real (length txns) / max total_hours 1;
                gaps = time_gaps timestamps;
                min_gap_hours = (if gaps \<noteq> [] then Min (set gaps) / 3600 else 999);
                rapid_count = length (filter (\<lambda>gap. gap < 3600) gaps);
                rapid_ratio = (if gaps \<noteq> [] then real rapid_count / real (length gaps) else 0);
                frequency = (if txn_per_hour > 1 then 40
                             else if txn_per_hour > 1 / 2 then 30
                             else if txn_per_hour > 1 / 5 then 20 else 0);
                rapid = (if rapid_ratio > 1 / 2 then 35
                         else if rapid_ratio > 3 / 10 then 25
                         else if rapid_ratio > 1 / 10 then 15 else 0);
                shortest = (if min_gap_hours < 1 / 2 then 25
                            else if min_gap_hours < 2 then 15
                            else if min_gap_hours < 6 then 10 else 0)
            in min (frequency + rapid + shortest) 100))"

text \<open>
  Without cached cycles the engine enumerates the cycles itself; this loop appends the
  cycle before it reads the clock and the count.
\<close>

fun recompute_cycles :: "(real \<times> account list) list \<Rightarrow> account list list \<Rightarrow> account list list" where
  "recompute_cycles [] all_cycles = all_cycles"
| "recompute_cycles ((elapsed, cycle) # rest) all_cycles =
     (if elapsed > 5 \<or> length (all_cycles @ [cycle]) \<ge> 500 then all_cycles @ [cycle]
      else recompute_cycles rest (all_cycles @ [cycle]))"

definition all_cycles_of :: "risk_engine \<Rightarrow> account list list" where
  "all_cycles_of ri =
     (if cached_cycles ri \<noteq> [] then cached_cycles ri
      else recompute_cycles (timed (rk_clock ri) (simple_cycles (rk_graph ri))) [])"

definition np_mean :: "real list \<Rightarrow> real" where
  "np_mean xs = sum_list xs / real (length xs)"

definition calculate_cycle_involvement_score :: "risk_engine \<Rightarrow> account \<Rightarrow> real" where
  "calculate_cycle_involvement_score ri node =
     (let all_cycles = all_cycles_of ri;
          cnt = sum_list (map (\<lambda>cycle. count_list cycle node) all_cycles);
          complexities = concat (map (\<lambda>cycle. replicate (count_list cycle node) (real (length cycle)))
                                   all_cycles)
      in if cnt > 0 then
           (let base_score = 50;
                multi_cycle_score = (if cnt > 2 then 30 else if cnt > 1 then 20 else 0);
                avg_complexity = (if complexities \<noteq> [] then np_mean complexities else 0);
                complexity_score = (if avg_complexity > 4 then 20
                                    else if avg_complexity > 3 then 15 else 0)
            in min (base_score + multi_cycle_score + complexity_score) 100)
         else 0)"

text \<open>
  The ring density scores are a dict over the nodes, all 0 at first;
  \<^verbatim>\<open>scores[member] = max(scores[member], min(total_score, 100))\<close> raises when the
  member is not a node, and so does \<^verbatim>\<open>ring['member_accounts']\<close> when the ring has
  no such key. The subgraph of a ring has the edges with both ends among its members; the
  degree of a member in it counts the edges in and the edges out.
\<close>

fun set_max :: "account \<Rightarrow> real \<Rightarrow> score_dict \<Rightarrow> py_error + score_dict" where
  "set_max k v [] = Inl KeyError"
| "set_max k v ((k', x) # d) =
     (if k = k' then Inr ((k', max x v) # d)
      else (case set_max k v d of Inl err \<Rightarrow> Inl err | Inr d' \<Rightarrow> Inr ((k', x) # d')))"

fun fold_err :: "('a \<Rightarrow> 's \<Rightarrow> py_error + 's) \<Rightarrow> 'a list \<Rightarrow> 's \<Rightarrow> py_error + 's" where
  "fold_err f [] s = Inr s"
| "fold_err f (x # xs) s = (case f x s of Inl err \<Rightarrow> Inl err | Inr s' \<Rightarrow> fold_err f xs s')"

definition member_total_score :: "risk_engine \<Rightarrow> ring \<Rightarrow> account list \<Rightarrow> account \<Rightarrow> real" where
  "member_total_score ri r ms member =
     (let member_count = length ms;
          ring_edges = filter (\<lambda>(u, v). u \<in> set ms \<and> v \<in> set ms) (edges (rk_graph ri));
          possible_edges = member_count * (member_count - 1);
          actual_edges = length ring_edges;
          density = real actual_edges / real (max possible_edges 1);
          ring_risk = dict_get (risk_score r) 50 / 100;
          in_ring_degree = (if member \<in> set (nodes (rk_graph ri))
                            then length (filter (\<lambda>(u, v). v = member) ring_edges)
                                 + length (filter (\<lambda>(u, v). u = member) ring_edges)
                            else 0);
          degree_ratio = real in_ring_degree / real (max (member_count - 1) 1);
          density_score = density * 50;
          connectivity_score = degree_ratio * 30;
          ring_base_score = ring_risk * 20
      in density_score + connectivity_score + ring_base_score)"

definition ring_density_step :: "risk_engine \<Rightarrow> ring \<Rightarrow> score_dict \<Rightarrow> py_error + score_dict" where
  "ring_density_step ri r sc =
     (case member_accounts r of
        None \<Rightarrow> Inl KeyError
      | Some accounts \<Rightarrow>
          (let ms = remdups accounts
           in if length ms < 2 then Inr sc
              else fold_err (\<lambda>member. set_max member (min (member_total_score ri r ms member) 100))
                     ms sc))"

definition calculate_ring_density_score :: "risk_engine \<Rightarrow> py_error + score_dict" where
  "calculate_ring_density_score ri =
     fold_err (ring_density_step ri) (rk_fraud_rings ri) (map (\<lambda>node. (node, 0)) (nodes (rk_graph ri)))"

text \<open>
  \<^verbatim>\<open>np.std\<close> divides by the number of values, the \<^verbatim>\<open>std\<close> of a pandas
  series by one less, and is \<^verbatim>\<open>NaN\<close> for a single value, which fails both
  comparisons of the variance test.
\<close>

definition np_std :: "real list \<Rightarrow> real" where
  "np_std xs = sqrt (sum_list (map (\<lambda>x. (x - np_mean xs)\<^sup>2) xs) / real (length xs))"

definition pd_std :: "real list \<Rightarrow> real option" where
  "pd_std xs =
     (if length xs < 2 then None
      else Some (sqrt (sum_list (map (\<lambda>x. (x - np_mean xs)\<^sup>2) xs) / real (length xs - 1))))"

definition np_median :: "real list \<Rightarrow> real" where
  "np_median xs =
     (let s = sort xs; n = length s
      in if odd n then s ! (n div 2) else (s ! (n div 2 - 1) + s ! (n div 2)) / 2)"

definition calculate_volume_anomaly_score :: "risk_engine \<Rightarrow> account \<Rightarrow> real" where
  "calculate_volume_anomaly_score ri acc =
     (let all_amounts = map amount (rk_df ri);
          global_mean = np_mean all_amounts;
          global_std = np_std all_amounts;
          global_median = np_median all_amounts;
          sent = map amount (filter (\<lambda>t. sender_id t = acc) (rk_df ri));
          received = map amount (filter (\<lambda>t. receiver_id t = acc) (rk_df ri));
          all_txns = sent @ received
      in if all_txns = [] then 0
         else
           (let account_mean = np_mean all_txns;
                account_std = pd_std all_txns;
                z_score = \<bar>account_mean - global_mean\<bar> / max global_std 1;
                deviation = (if z_score > 3 then 35 else if z_score > 2 then 25
                             else if z_score > 1 then 15 else 0);
                small_txn_threshold = global_median * (3 / 10);
                small_txn_count = length (filter (\<lambda>amt. amt < small_txn_threshold) all_txns);
                small_ratio = real small_txn_count / real (length all_txns);
                structuring = (if small_ratio > 7 / 10 \<and> length all_txns > 10 then 30
                               else if small_ratio > 1 / 2 \<and> length all_txns > 5 then 20 else 0);
                variance = (case account_std of
                              None \<Rightarrow> 0
                            | Some sd \<Rightarrow>
                                if sd > account_mean * (8 / 10) \<and> length all_txns > 3 then 20
                                else if sd > account_mean * (1 / 2) then 10 else 0);
                suspicious_amounts =
                  length (filter (\<lambda>amt. (9500 \<le> amt \<and> amt < 10000) \<or> (4500 \<le> amt \<and> amt < 5000))
                            all_txns);
                thresholds = (if real suspicious_amounts > real (length all_txns) * (3 / 10) then 15
                              else if real suspicious_amounts > real (length all_txns) * (1 / 10) then 10
                              else 0)
            in min (deviation + structuring + variance + thresholds) 100))"

text \<open>
  The entry of one account in the result; the explanation text is left out.
\<close>

record risk_factors =
  f_centrality :: real
  f_velocity :: real
  f_cycle_involvement :: real
  f_ring_density :: real
  f_volume_anomaly :: real

record risk_entry =
  ri_account_id :: account
  ri_risk_score :: real
  ri_risk_level :: string
  ri_risk_factors :: risk_factors
  ri_patterns :: "string list"

definition risk_result :: "risk_engine \<Rightarrow> centrality_measures \<Rightarrow> score_dict \<Rightarrow> account \<Rightarrow> risk_entry" where
  "risk_result ri cm ring_density_scores acc =
     (let centrality = calculate_degree_centrality_score cm acc;
          velocity = calculate_transaction_velocity_score ri acc;
          cycle_involvement = calculate_cycle_involvement_score ri acc;
          ring_density = score_get ring_density_scores acc;
          volume_anomaly = calculate_volume_anomaly_score ri acc;
          final_score = centrality * (20 / 100) + velocity * (20 / 100)
                        + cycle_involvement * (25 / 100) + ring_density * (20 / 100)
                        + volume_anomaly * (15 / 100);
          level = (if final_score \<ge> 70 then ''CRITICAL''
                   else if final_score \<ge> 50 then ''HIGH''
                   else if final_score \<ge> 30 then ''MEDIUM''
                   else ''LOW'');
          whitelisted = acc \<in> set (rk_whitelisted_accounts ri)
      in \<lparr>ri_account_id = acc,
          ri_risk_score = py_round (if whitelisted then 0 else final_score) 2,
          ri_risk_level = (if whitelisted then ''LOW'' else level),
          ri_risk_factors =
            \<lparr>f_centrality = py_round centrality 2, f_velocity = py_round velocity 2,
             f_cycle_involvement = py_round cycle_involvement 2,
             f_ring_density = py_round ring_density 2,
             f_volume_anomaly = py_round volume_anomaly 2\<rparr>,
          ri_patterns = (case map_of (basic_scores ri) acc of None \<Rightarrow> [] | Some s \<Rightarrow> patterns s)\<rparr>)"

definition calculate_comprehensive_risk_scores ::
  "risk_engine \<Rightarrow> centrality_measures \<Rightarrow> py_error + risk_entry list" where
  "calculate_comprehensive_risk_scores ri cm =
     (case calculate_ring_density_score ri of
        Inl err \<Rightarrow> Inl err
      | Inr ring_density_scores \<Rightarrow>
          Inr (map (risk_result ri cm ring_density_scores) (nodes (rk_graph ri))))"

text \<open>
  Invariants: the scores of a dict are not negative; the scores of a dict lie between 0
  and 100; the ring density dict keeps the nodes as its keys.
\<close>

definition nonneg_scores :: "scores \<Rightarrow> bool" where
  "nonneg_scores d \<longleftrightarrow> (\<forall>(k, v)\<in>set d. 0 \<le> score v)"

definition in_range :: "score_dict \<Rightarrow> bool" where
  "in_range d \<longleftrightarrow> (\<forall>(k, x)\<in>set d. 0 \<le> x \<and> x \<le> 100)"

definition density_inv :: "risk_engine \<Rightarrow> score_dict \<Rightarrow> bool" where
  "density_inv ri d \<longleftrightarrow> in_range d \<and> map fst d = nodes (rk_graph ri)"

section \<open>Worked examples\<close>

text \<open>Concrete batches and engine states on which the functions are evaluated.\<close>

definition tx :: "string \<Rightarrow> account \<Rightarrow> account \<Rightarrow> real \<Rightarrow> int \<Rightarrow> transaction" where
  "tx i s r a t = \<lparr>transaction_id = i, sender_id = s, receiver_id = r, amount = a, timestamp = t\<rparr>"

definition graph_of :: "account list \<Rightarrow> transaction list \<Rightarrow> digraph" where
  "graph_of ns txs = \<lparr>nodes = ns, edges = remdups (map (\<lambda>t. (sender_id t, receiver_id t)) txs)\<rparr>"

definition merchant_df :: "transaction list" where
  "merchant_df =
     [tx ''T01'' ''P1'' ''M'' 100 0,
      tx ''T02'' ''P2'' ''M'' 100 345600,
      tx ''T03'' ''P3'' ''M'' 100 691200,
      tx ''T04'' ''P4'' ''M'' 100 1036800,
      tx ''T05'' ''P5'' ''M'' 100 1382400,
      tx ''T06'' ''M'' ''R'' 100 1728000,
      tx ''T07'' ''S1'' ''R'' 100 1731600,
      tx ''T08'' ''S2'' ''R'' 100 1735200,
      tx ''T09'' ''S3'' ''R'' 100 1738800,
      tx ''T10'' ''S4'' ''R'' 100 1742400]"

definition merchant_engine :: engine where
  "merchant_engine =
     \<lparr>graph = graph_of [''P1'', ''P2'', ''P3'', ''P4'', ''P5'', ''M'', ''S1'', ''S2'', ''S3'', ''S4'', ''R'']
                merchant_df,
      df = merchant_df,
      whitelisted_accounts = [''M'', ''R''],
      detected_cycles = [],
      detected_fanin = [\<lparr>receiver = ''R'', senders = [''M'', ''S1'', ''S2'', ''S3'', ''S4''],
                         fi_count = 5, fi_time_window = (1728000, 1987200),
                         fi_total_amount = 500\<rparr>],
      detected_fanout = [],
      detected_chains = [],
      suspicious_accounts = [],
      fraud_rings = []\<rparr>"

definition cycle_df :: "transaction list" where
  "cycle_df =
     [tx ''T1'' ''A'' ''B'' 1000 36000,
      tx ''T2'' ''B'' ''C'' 1000 39600,
      tx ''T3'' ''C'' ''A'' 1000 43200]"

definition cycle_engine :: "account list \<Rightarrow> engine" where
  "cycle_engine wl =
     \<lparr>graph = graph_of [''A'', ''B'', ''C''] cycle_df,
      df = cycle_df,
      whitelisted_accounts = wl,
      detected_cycles = [[''A'', ''B'', ''C'']],
      detected_fanin = [],
      detected_fanout = [],
      detected_chains = [],
      suspicious_accounts = [],
      fraud_rings = []\<rparr>"

definition two_cycle_df :: "transaction list" where
  "two_cycle_df =
     [tx ''T1'' ''A'' ''B'' 1000 0,
      tx ''T2'' ''B'' ''C'' 1000 864000,
      tx ''T3'' ''C'' ''A'' 1000 1728000,
      tx ''T4'' ''D'' ''E'' 1000 0,
      tx ''T5'' ''E'' ''F'' 1000 3600,
      tx ''T6'' ''F'' ''D'' 1000 7200]"

definition two_cycle_engine :: engine where
  "two_cycle_engine =
     \<lparr>graph = graph_of [''A'', ''B'', ''C'', ''D'', ''E'', ''F''] two_cycle_df,
      df = two_cycle_df,
      whitelisted_accounts = [],
      detected_cycles = [[''A'', ''B'', ''C''], [''D'', ''E'', ''F'']],
      detected_fanin = [],
      detected_fanout = [],
      detected_chains = [],
      suspicious_accounts = [],
      fraud_rings = []\<rparr>"

definition fanin12_senders :: "account list" where
  "fanin12_senders =
     [''S01'', ''S02'', ''S03'', ''S04'', ''S05'', ''S06'', ''S07'', ''S08'', ''S09'', ''S10'', ''S11'']"

definition fanin12_df :: "transaction list" where
  "fanin12_df =
     [tx ''T01'' ''S01'' ''H'' 100 0, tx ''T02'' ''S02'' ''H'' 100 600,
      tx ''T03'' ''S03'' ''H'' 100 1200, tx ''T04'' ''S04'' ''H'' 100 1800,
      tx ''T05'' ''S05'' ''H'' 100 2400, tx ''T06'' ''S06'' ''H'' 100 3000,
      tx ''T07'' ''S07'' ''H'' 100 3600, tx ''T08'' ''S08'' ''H'' 100 4200,
      tx ''T09'' ''S09'' ''H'' 100 4800, tx ''T10'' ''S10'' ''H'' 100 5400,
      tx ''T11'' ''S11'' ''H'' 100 6000]"

definition fanin12_engine :: engine where
  "fanin12_engine =
     \<lparr>graph = graph_of (fanin12_senders @ [''H'']) fanin12_df,
      df = fanin12_df,
      whitelisted_accounts = [''H''],
      detected_cycles = [],
      detected_fanin = [\<lparr>receiver = ''H'', senders = fanin12_senders,
                         fi_count = 11, fi_time_window = (0, 259200),
                         fi_total_amount = 1100\<rparr>],
      detected_fanout = [],
      detected_chains = [],
      suspicious_accounts = [],
      fraud_rings = []\<rparr>"

definition edge_window_df :: "transaction list" where
  "edge_window_df =
     [tx ''T1'' ''S1'' ''R'' 100 0,
      tx ''T2'' ''S2'' ''R'' 100 3600,
      tx ''T3'' ''S3'' ''R'' 100 7200,
      tx ''T4'' ''S4'' ''R'' 100 10800,
      tx ''T5'' ''S5'' ''R'' 100 259200]"

definition edge_window_engine :: engine where
  "edge_window_engine =
     \<lparr>graph = graph_of [''S1'', ''S2'', ''S3'', ''S4'', ''S5'', ''R''] edge_window_df,
      df = edge_window_df,
      whitelisted_accounts = [''R''],
      detected_cycles = [],
      detected_fanin = [],
      detected_fanout = [],
      detected_chains = [],
      suspicious_accounts = [],
      fraud_rings = []\<rparr>"

definition csv_row :: "string \<Rightarrow> string \<Rightarrow> string \<Rightarrow> float64 \<Rightarrow> int option \<Rightarrow> raw_row" where
  "csv_row i s r a t =
     \<lparr>row_transaction_id = i, row_sender_id = s, row_receiver_id = r,
      row_amount = a, row_timestamp = t\<rparr>"

definition negative_amount_df :: dataframe where
  "negative_amount_df =
     \<lparr>frame_columns = EXPECTED_COLUMNS,
      frame_rows = [csv_row ''T1'' ''A'' ''B'' (Finite (- 5)) (Some 0),
              csv_row ''T2'' ''B'' ''C'' PosInf (Some 60)]\<rparr>"

definition unparsed_amount_df :: dataframe where
  "unparsed_amount_df =
     \<lparr>frame_columns = EXPECTED_COLUMNS,
      frame_rows = [csv_row ''T1'' ''A'' ''B'' (Finite 10) (Some 0),
              csv_row ''T2'' ''B'' ''C'' NaN (Some 60)]\<rparr>"

definition shell_df :: "transaction list" where
  "shell_df =
     [tx ''T1'' ''X'' ''SH1'' 900 0,
      tx ''T2'' ''SH1'' ''SH2'' 900 3600,
      tx ''T3'' ''SH2'' ''SH3'' 900 7200,
      tx ''T4'' ''SH3'' ''Y'' 900 10800]"

definition shell_engine :: engine where
  "shell_engine =
     \<lparr>graph = graph_of [''X'', ''SH1'', ''SH2'', ''SH3'', ''Y''] shell_df,
      df = shell_df,
      whitelisted_accounts = [],
      detected_cycles = [],
      detected_fanin = [],
      detected_fanout = [],
      detected_chains = [],
      suspicious_accounts = [],
      fraud_rings = []\<rparr>"

text \<open>
  A graph with three elementary cycles, one of them of length 2, and a clock that passes
  the 5 seconds at the third cycle.
\<close>

definition budget_df :: "transaction list" where
  "budget_df =
     [tx ''T1'' ''A'' ''B'' 1000 0,
      tx ''T2'' ''B'' ''C'' 1000 3600,
      tx ''T3'' ''C'' ''A'' 1000 7200,
      tx ''T4'' ''D'' ''E'' 1000 0,
      tx ''T5'' ''E'' ''D'' 1000 3600,
      tx ''T6'' ''F'' ''G'' 1000 0,
      tx ''T7'' ''G'' ''H'' 1000 3600,
      tx ''T8'' ''H'' ''F'' 1000 7200]"

definition budget_engine :: engine where
  "budget_engine =
     \<lparr>graph = graph_of [''A'', ''B'', ''C'', ''D'', ''E'', ''F'', ''G'', ''H''] budget_df,
      df = budget_df,
      whitelisted_accounts = [],
      detected_cycles = [],
      detected_fanin = [],
      detected_fanout = [],
      detected_chains = [],
      suspicious_accounts = [],
      fraud_rings = []\<rparr>"

definition slow_clock :: "nat \<Rightarrow> real" where
  "slow_clock i = (if i < 2 then 1 else 6)"

text \<open>
  The risk engine on the three-account cycle, built as the upload handler builds it
  (no cached cycles, no whitelist), with the ring of the three accounts and the
  centralities of a directed triangle.
\<close>

definition cycle_centrality :: centrality_measures where
  "cycle_centrality =
     \<lparr>degree_centrality = (\<lambda>n. 1), betweenness = (\<lambda>n. 1 / 2), pagerank = (\<lambda>n. 1 / 3)\<rparr>"

definition cycle_risk_engine :: risk_engine where
  "cycle_risk_engine =
     \<lparr>rk_graph = graph_of [''A'', ''B'', ''C''] cycle_df,
      rk_df = cycle_df,
      rk_fraud_rings =
        [\<lparr>ring_id = Some ''RING_001'', pattern_type = Some ''cycle'',
          member_accounts = Some [''A'', ''B'', ''C''], member_count = Some 3,
          risk_score = Some 40, description = Some ''Circular fund routing through 3 accounts'',
          members = None, pattern = None\<rparr>],
      basic_scores = [],
      cached_cycles = [],
      rk_clock = (\<lambda>i. 0),
      rk_whitelisted_accounts = []\<rparr>"

section \<open>Properties of the alert engine\<close>

lemma previous_after_analyze:
  "previous (snd (analyze_and_generate_alerts eng rings rs vs)) =
     \<lparr>prev_rings = set (map ring_id rings), prev_risk_scores = rs, prev_velocities = vs\<rparr>"
  by (simp add: analyze_and_generate_alerts_def Let_def)

lemma detect_new_rings_same: "detect_new_rings rings (ring_id ` set rings) = []"
  by (simp add: detect_new_rings_def)

lemma score_get_self:
  "dict_wf d \<Longrightarrow> (k, v) \<in> set d \<Longrightarrow> score_get d k = v"
  by (simp add: dict_wf_def score_get_def)

lemma detect_risk_spikes_same:
  assumes "dict_wf d"
  shows "detect_risk_spikes d d = []"
proof -
  have "\<And>kv. kv \<in> set d \<Longrightarrow>
      (case kv of (acc, current_score) \<Rightarrow>
        (let previous_score = score_get d acc; spike = current_score - previous_score
         in if spike \<ge> 20 then [risk_spike_alert acc current_score previous_score] else [])) = []"
    using assms by (auto simp: Let_def score_get_self)
  then show ?thesis
    by (simp add: detect_risk_spikes_def)
qed

lemma detect_critical_nodes_same:
  "prev_risk_scores (previous eng) = d \<Longrightarrow> detect_critical_nodes eng d = []"
  by (force simp: detect_critical_nodes_def)

lemma velocity_alert_same:
  "velocity_alert acc v v = [] \<longleftrightarrow> v < 10"
  by (auto simp: velocity_alert_def Let_def)

lemma second_run_eq:
  assumes "dict_wf rs"
  shows "second_run_alerts eng rings rs vs = detect_velocity_anomalies vs vs"
  using assms
  by (simp add: second_run_alerts_def previous_after_analyze detect_new_rings_same
      detect_risk_spikes_same detect_critical_nodes_same
      analyze_and_generate_alerts_def[of "snd (analyze_and_generate_alerts eng rings rs vs)"] Let_def)

lemma concat_map_cases:
  assumes "\<And>x. x \<in> set xs \<Longrightarrow> map g (f x) = (if P x then [h x] else [])"
  shows "map g (concat (map f xs)) = map h (filter P xs)"
  using assms by (induction xs) auto

lemma velocity_alert_same_ids:
  "map account_id (velocity_alert acc v v) = (if v \<ge> 10 then [Some acc] else [])"
  by (auto simp: velocity_alert_def Let_def)

lemma velocity_alert_same_types:
  "a \<in> set (velocity_alert acc v w) \<Longrightarrow> alert_type a = VELOCITY_ANOMALY"
  by (auto simp: velocity_alert_def Let_def split: if_splits)

lemma detect_velocity_same_ids:
  assumes "dict_wf vs"
  shows "map account_id (detect_velocity_anomalies vs vs) =
         map (\<lambda>(acc, v). Some acc) (filter (\<lambda>(acc, v). v \<ge> 10) vs)"
  unfolding detect_velocity_anomalies_def
  by (rule concat_map_cases) (use assms in \<open>auto simp: score_get_self velocity_alert_same_ids velocity_alert_same\<close>)

text \<open>
  Claim C3, as amended. Running the differ a second time on the same rings, risk scores
  and velocities (each dict holding every key once) yields no \<open>NEW_RING\<close>,
  \<open>RISK_SPIKE\<close> or \<open>CRITICAL_NODE\<close> alert; it yields one
  \<open>VELOCITY_ANOMALY\<close> alert for each account whose velocity is at least 10, in
  dict order, and nothing else. So the second run is silent exactly when every velocity
  is below 10.
\<close>

theorem second_run_alerts_velocity_only:
  assumes "dict_wf rs" and "dict_wf vs"
  shows "map account_id (second_run_alerts eng rings rs vs) =
           map (\<lambda>(acc, v). Some acc) (filter (\<lambda>(acc, v). v \<ge> 10) vs)
         \<and> (\<forall>a \<in> set (second_run_alerts eng rings rs vs). alert_type a = VELOCITY_ANOMALY)
         \<and> ((second_run_alerts eng rings rs vs = []) = (\<forall>(acc, v) \<in> set vs. v < 10))"
proof -
  have eq: "second_run_alerts eng rings rs vs = detect_velocity_anomalies vs vs"
    using assms(1) by (rule second_run_eq)
  have ids: "map account_id (detect_velocity_anomalies vs vs) =
           map (\<lambda>(acc, v). Some acc) (filter (\<lambda>(acc, v). v \<ge> 10) vs)"
    using assms(2) by (rule detect_velocity_same_ids)
  have types: "\<forall>a \<in> set (detect_velocity_anomalies vs vs). alert_type a = VELOCITY_ANOMALY"
    by (auto simp: detect_velocity_anomalies_def dest: velocity_alert_same_types)
  have "(detect_velocity_anomalies vs vs = []) = (map account_id (detect_velocity_anomalies vs vs) = [])"
    by simp
  also have "\<dots> = (\<forall>(acc, v) \<in> set vs. v < 10)"
    unfolding ids by (auto simp: filter_empty_conv not_le)
  finally show ?thesis using eq ids types by simp
qed

theorem second_run_alerts_witness:
  "dict_wf [(''A'', 90)] \<and> dict_wf [(''A'', 3)]
   \<and> second_run_alerts (AlertEngine 100) [] [(''A'', 90)] [(''A'', 3)] = []"
  using second_run_alerts_velocity_only [of "[(''A'', 90)]" "[(''A'', 3)]" "AlertEngine 100" "[]"]
  by (simp add: dict_wf_def)

text \<open>
  The unconditional form of C3 fails: an account with velocity 10 is reported again.
\<close>

theorem second_run_alerts_counterexample:
  "second_run_alerts (AlertEngine 100) [] [] [(''A'', 10)] \<noteq> []"
  by (simp add: second_run_alerts_def analyze_and_generate_alerts_def Let_def
      detect_new_rings_def detect_risk_spikes_def detect_velocity_anomalies_def
      detect_critical_nodes_def velocity_alert_def score_get_def AlertEngine_def)

section \<open>Properties of the suspicion scorer\<close>

lemma map_of_upd:
  "map_of (upd k f d) k' = (if k' = k then Some (f (entry_of d k)) else map_of d k')"
  by (induction d) (auto simp: entry_of_def)

lemma keys_upd: "fst ` set (upd k f d) = insert k (fst ` set d)"
proof (induction d)
  case Nil then show ?case by simp
next
  case (Cons kv d)
  obtain k' v where kv: "kv = (k', v)" by (cases kv)
  show ?case unfolding kv using Cons by (cases "k = k'") auto
qed

lemma distinct_upd: "distinct (map fst d) \<Longrightarrow> distinct (map fst (upd k f d))"
proof (induction d)
  case Nil then show ?case by simp
next
  case (Cons kv d)
  obtain k' v where kv: "kv = (k', v)" by (cases kv)
  show ?case using Cons keys_upd[of k f d] by (auto simp: kv image_iff)
qed

lemma score_of_upd:
  "score_of (upd k f d) a = (if a = k then score (f (entry_of d k)) else score_of d a)"
  by (simp add: score_of_def map_of_upd)

lemma score_entry_of: "score (entry_of d k) = score_of d k"
  by (simp add: score_of_def entry_of_def default_entry_def split: option.splits)

lemma fold_upd_other:
  assumes "a \<notin> set (map key xs)"
  shows "map_of (fold (\<lambda>x. upd (key x) (f x)) xs d) a = map_of d a"
  using assms by (induction xs arbitrary: d) (auto simp: map_of_upd)

lemma score_cycles_other:
  assumes "\<forall>c \<in> set cs. a \<notin> set c"
  shows "map_of (score_cycles cs d) a = map_of d a"
  using assms unfolding score_cycles_def
proof (induction cs arbitrary: d)
  case Nil then show ?case by simp
next
  case (Cons c cs)
  have "map_of (fold (\<lambda>acc. upd acc (add_contribution 40 ''cycle_member'' ''cycle'')) c d) a = map_of d a"
    using Cons.prems fold_upd_other[of a "\<lambda>x. x" c] by simp
  then show ?case using Cons by simp
qed

lemma score_chains_other:
  assumes "\<forall>c \<in> set cs. a \<notin> set (interior c)"
  shows "map_of (score_chains cs d) a = map_of d a"
  using assms unfolding score_chains_def
proof (induction cs arbitrary: d)
  case Nil then show ?case by simp
next
  case (Cons c cs)
  have "map_of (fold (\<lambda>acc. upd acc (add_contribution 20 ''shell_intermediate'' ''shell_chain'')) (interior c) d) a = map_of d a"
    using Cons.prems fold_upd_other[of a "\<lambda>x. x" "interior c"] by simp
  then show ?case using Cons by simp
qed

lemma score_fanin_other:
  assumes "\<forall>p \<in> set ps. a \<noteq> receiver p"
  shows "map_of (score_fanin ps d) a = map_of d a"
  unfolding score_fanin_def
  using assms fold_upd_other[of a receiver ps "\<lambda>_. add_contribution 30 ''fan_in_hub'' ''fan_in''" d]
  by auto

lemma score_fanout_other:
  assumes "\<forall>p \<in> set ps. a \<noteq> sender p"
  shows "map_of (score_fanout ps d) a = map_of d a"
  unfolding score_fanout_def
  using assms fold_upd_other[of a sender ps "\<lambda>_. add_contribution 30 ''fan_out_hub'' ''fan_out''" d]
  by auto

lemma base_scores_no_role:
  assumes "\<not> scored_role e a"
  shows "map_of (base_scores e) a = None"
  using assms
  by (simp add: base_scores_def scored_role_def score_chains_other score_fanout_other
      score_fanin_other score_cycles_other)

lemma apply_velocity_zero:
  "score_of sc a = 0 \<Longrightarrow> score_of (apply_velocity e b sc) a = 0"
  by (auto simp: apply_velocity_def Let_def score_of_upd score_entry_of)

lemma apply_spread_penalty_zero:
  "score_of sc a = 0 \<Longrightarrow> score_of (apply_spread_penalty e b sc) a = 0"
  by (auto simp: apply_spread_penalty_def Let_def score_of_upd score_entry_of)

lemma apply_whitelist_other:
  "a \<noteq> b \<Longrightarrow> map_of (apply_whitelist e b sc) a = map_of sc a"
  by (simp add: apply_whitelist_def map_of_upd)

lemma fold_preserves:
  assumes "\<And>x s. x \<in> set xs \<Longrightarrow> P s \<Longrightarrow> P (g x s)" and "P s"
  shows "P (fold g xs s)"
  using assms by (induction xs arbitrary: s) auto

lemma velocity_scores_zero:
  assumes "\<not> scored_role e a"
  shows "score_of (velocity_scores e) a = 0"
  unfolding velocity_scores_def
proof (rule fold_preserves)
  show "score_of (base_scores e) a = 0"
    using assms by (simp add: base_scores_no_role score_of_def)
qed (rule apply_velocity_zero)

lemma whitelist_scores_zero:
  assumes "\<not> scored_role e a" and "a \<notin> set (whitelisted_accounts e)"
  shows "score_of (whitelist_scores e) a = 0"
  unfolding whitelist_scores_def
proof (rule fold_preserves)
  fix x s assume "x \<in> set (remdups (whitelisted_accounts e))" "score_of s a = 0"
  then show "score_of (apply_whitelist e x s) a = 0"
    using assms(2) apply_whitelist_other[of a x e s] by (cases "a = x") (auto simp: score_of_def)
qed (rule velocity_scores_zero[OF assms(1)])

lemma penalty_scores_zero:
  assumes "\<not> scored_role e a" and "a \<notin> set (whitelisted_accounts e)"
  shows "score_of (penalty_scores e) a = 0"
  unfolding penalty_scores_def
proof (rule fold_preserves)
  show "score_of (whitelist_scores e) a = 0"
    using assms by (rule whitelist_scores_zero)
qed (rule apply_spread_penalty_zero)

lemma map_of_cap:
  "map_of (map (\<lambda>(acc, s). (acc, cap_entry s)) d) a = map_option cap_entry (map_of d a)"
  by (induction d) auto

lemma final_scores_eq:
  "map_of (fst (calculate_suspicion_scores e)) a = map_option cap_entry (map_of (penalty_scores e) a)"
  by (simp add: calculate_suspicion_scores_def Let_def map_of_cap)

lemma score_cap_zero: "score s = 0 \<Longrightarrow> score (cap_entry s) = 0"
  by (simp add: cap_entry_def Let_def)

text \<open>
  Claim C10. An account outside the whitelist whose final suspicion score is not zero
  is a member of a detected cycle, the receiver of a fan-in pattern, the sender of a
  fan-out pattern or an interior node of a shell chain: the velocity multiplier and the
  spread-over-time penalty only multiply, so they leave a score of zero at zero.
\<close>

theorem nonzero_score_needs_scored_role:
  assumes "a \<notin> set (whitelisted_accounts e)"
    and "map_of (fst (calculate_suspicion_scores e)) a = Some s"
    and "score s \<noteq> 0"
  shows "scored_role e a"
proof (rule ccontr)
  assume "\<not> scored_role e a"
  then have z: "score_of (penalty_scores e) a = 0"
    using assms(1) by (rule penalty_scores_zero)
  from assms(2) obtain s' where s': "map_of (penalty_scores e) a = Some s'" "s = cap_entry s'"
    by (auto simp: final_scores_eq)
  then have "score s' = 0" using z by (simp add: score_of_def)
  then show False using assms(3) s' by (simp add: score_cap_zero)
qed


lemma in_keys_iff: "a \<in> fst ` set sc \<longleftrightarrow> map_of sc a \<noteq> None"
  by (simp add: map_of_eq_None_iff)

lemma apply_whitelist_at:
  "map_of (apply_whitelist e a sc) a = map_option (whitelist_entry e a) (map_of sc a)"
proof (cases "map_of sc a")
  case None
  then have "a \<notin> fst ` set sc" by (simp add: in_keys_iff)
  then show ?thesis using None by (simp add: apply_whitelist_def)
next
  case (Some s)
  then have "a \<in> fst ` set sc" by (simp add: in_keys_iff)
  then show ?thesis using Some
    by (simp add: apply_whitelist_def map_of_upd entry_of_def whitelist_entry_def)
qed

lemma fold_whitelist_other:
  "a \<notin> set xs \<Longrightarrow> map_of (fold (apply_whitelist e) xs sc) a = map_of sc a"
  by (induction xs arbitrary: sc) (auto simp: apply_whitelist_other)

lemma fold_whitelist_at:
  "distinct xs \<Longrightarrow> a \<in> set xs \<Longrightarrow>
   map_of (fold (apply_whitelist e) xs sc) a = map_option (whitelist_entry e a) (map_of sc a)"
proof (induction xs arbitrary: sc)
  case Nil then show ?case by simp
next
  case (Cons x xs)
  show ?case
  proof (cases "x = a")
    case True
    then show ?thesis using Cons.prems by (simp add: fold_whitelist_other apply_whitelist_at)
  next
    case False
    then show ?thesis using Cons by (simp add: apply_whitelist_other)
  qed
qed

lemma whitelist_scores_at:
  assumes "a \<in> set (whitelisted_accounts e)"
  shows "map_of (whitelist_scores e) a = map_option (whitelist_entry e a) (map_of (velocity_scores e) a)"
  unfolding whitelist_scores_def using assms by (simp add: fold_whitelist_at)

lemma apply_spread_penalty_whitelisted:
  "a \<in> set (whitelisted_accounts e) \<Longrightarrow> map_of (apply_spread_penalty e b sc) a = map_of sc a"
  by (auto simp: apply_spread_penalty_def Let_def map_of_upd)

lemma penalty_scores_whitelisted:
  assumes "a \<in> set (whitelisted_accounts e)"
  shows "map_of (penalty_scores e) a = map_of (whitelist_scores e) a"
  unfolding penalty_scores_def
  by (rule fold_preserves[where P="\<lambda>s. map_of s a = map_of (whitelist_scores e) a"])
     (use assms in \<open>simp_all add: apply_spread_penalty_whitelisted\<close>)

lemma final_whitelisted:
  assumes "a \<in> set (whitelisted_accounts e)"
  shows "map_of (fst (calculate_suspicion_scores e)) a =
         map_option (\<lambda>s. cap_entry (whitelist_entry e a s)) (map_of (velocity_scores e) a)"
  using assms
  by (simp add: final_scores_eq penalty_scores_whitelisted whitelist_scores_at option.map_comp comp_def)

lemma keys_apply_velocity: "distinct (map fst sc) \<Longrightarrow> distinct (map fst (apply_velocity e a sc))"
  by (simp add: apply_velocity_def Let_def distinct_upd)
lemma keys_apply_whitelist: "distinct (map fst sc) \<Longrightarrow> distinct (map fst (apply_whitelist e a sc))"
  by (simp add: apply_whitelist_def distinct_upd)
lemma keys_apply_spread: "distinct (map fst sc) \<Longrightarrow> distinct (map fst (apply_spread_penalty e a sc))"
  by (simp add: apply_spread_penalty_def Let_def distinct_upd)

lemma fold_upd_distinct:
  "distinct (map fst d) \<Longrightarrow> distinct (map fst (fold (\<lambda>x. upd (key x) (f x)) xs d))"
  by (induction xs arbitrary: d) (auto simp: distinct_upd)

lemma distinct_score_cycles: "distinct (map fst d) \<Longrightarrow> distinct (map fst (score_cycles cs d))"
  unfolding score_cycles_def
proof (induction cs arbitrary: d)
  case Nil then show ?case by simp
next
  case (Cons c cs)
  have "distinct (map fst (fold (\<lambda>acc. upd acc (add_contribution 40 ''cycle_member'' ''cycle'')) c d))"
    using Cons.prems fold_upd_distinct[of d "\<lambda>x. x" "\<lambda>_. add_contribution 40 ''cycle_member'' ''cycle''" c]
    by simp
  then show ?case using Cons.IH by simp
qed

lemma distinct_score_chains: "distinct (map fst d) \<Longrightarrow> distinct (map fst (score_chains cs d))"
  unfolding score_chains_def
proof (induction cs arbitrary: d)
  case Nil then show ?case by simp
next
  case (Cons c cs)
  have "distinct (map fst (fold (\<lambda>acc. upd acc (add_contribution 20 ''shell_intermediate'' ''shell_chain'')) (interior c) d))"
    using Cons.prems fold_upd_distinct[of d "\<lambda>x. x" "\<lambda>_. add_contribution 20 ''shell_intermediate'' ''shell_chain''" "interior c"]
    by simp
  then show ?case using Cons.IH by simp
qed

lemma distinct_base_scores: "distinct (map fst (base_scores e))"
  unfolding base_scores_def score_fanin_def score_fanout_def
  by (intro distinct_score_chains fold_upd_distinct distinct_score_cycles) simp

lemma distinct_penalty_scores: "distinct (map fst (penalty_scores e))"
  unfolding penalty_scores_def whitelist_scores_def velocity_scores_def
  by (intro fold_preserves[where P="\<lambda>s. distinct (map fst s)"]
      keys_apply_velocity keys_apply_whitelist keys_apply_spread distinct_base_scores)

lemma map_fst_cap: "map fst (map (\<lambda>(acc, s). (acc, cap_entry s)) d) = map fst d"
  by (induction d) auto

lemma distinct_final_scores: "distinct (map fst (fst (calculate_suspicion_scores e)))"
  unfolding calculate_suspicion_scores_def Let_def fst_conv map_fst_cap
  by (rule distinct_penalty_scores)

lemma build_suspicious_accounts_mem:
  assumes "x \<in> set (build_suspicious_accounts d)"
  shows "\<exists>s. (ae_account_id x, s) \<in> set d \<and> score s \<noteq> 0"
  using assms by (auto simp: build_suspicious_accounts_def)

lemma canonical_suspicious_accounts:
  "resp_suspicious_accounts (canonical_response e) =
     build_suspicious_accounts
       (map (\<lambda>(acc, data). (acc, data\<lparr>entry_ring_id :=
                 account_to_ring (fst (construct_fraud_rings (snd (calculate_suspicion_scores e)))) acc\<rparr>))
          (fst (calculate_suspicion_scores e)))"
  by (simp add: canonical_response_def build_response_def Let_def
      assign_ring_ids_to_accounts_def construct_fraud_rings_def calculate_suspicion_scores_def)

lemma response_accounts:
  assumes "x \<in> set (resp_suspicious_accounts (canonical_response e))"
  shows "\<exists>s. map_of (fst (calculate_suspicion_scores e)) (ae_account_id x) = Some s \<and> score s \<noteq> 0"
proof -
  let ?final = "fst (calculate_suspicion_scores e)"
  from assms obtain s' where "(ae_account_id x, s') \<in> set (map (\<lambda>(acc, data). (acc, data\<lparr>entry_ring_id :=
                 account_to_ring (fst (construct_fraud_rings (snd (calculate_suspicion_scores e)))) acc\<rparr>))
          ?final)" "score s' \<noteq> 0"
    unfolding canonical_suspicious_accounts using build_suspicious_accounts_mem by blast
  then obtain s where s: "(ae_account_id x, s) \<in> set ?final" "score s \<noteq> 0"
    by auto
  then show ?thesis using distinct_final_scores[of e] by auto
qed

text \<open>
  Claim C1, as amended. Step 6 only touches accounts that already have an entry in the
  score dict. For a whitelisted account with an entry: outside every smurfing pattern
  the final entry has score 0, no patterns, the single factor
  \<open>whitelisted_legitimate_account\<close> and level LOW; inside one, step 6 sets the score
  to \<open>max (score * 0.5) 30\<close>, appends \<open>whitelisted_but_smurfing_member\<close> and
  keeps the patterns, and the final cap then clamps the score at 100. A whitelisted
  account without an entry gets none. A whitelisted account outside every smurfing
  pattern is never listed among the suspicious accounts of the canonical response.
\<close>

theorem whitelist_override:
  assumes "a \<in> set (whitelisted_accounts e)"
  shows "(a \<notin> smurfing_members e \<longrightarrow>
            (\<forall>s. map_of (velocity_scores e) a = Some s \<longrightarrow>
               map_of (fst (calculate_suspicion_scores e)) a =
                 Some (s\<lparr>score := 0, factors := [''whitelisted_legitimate_account''],
                         patterns := [], risk_level := ''LOW''\<rparr>))
            \<and> a \<notin> ae_account_id ` set (resp_suspicious_accounts (canonical_response e)))
       \<and> (a \<in> smurfing_members e \<longrightarrow>
            (\<forall>s. map_of (velocity_scores e) a = Some s \<longrightarrow>
               map_of (whitelist_scores e) a =
                 Some (s\<lparr>score := max (score s * (1 / 2)) 30,
                         factors := factors s @ [''whitelisted_but_smurfing_member'']\<rparr>)
               \<and> (\<exists>s'. map_of (fst (calculate_suspicion_scores e)) a = Some s'
                      \<and> score s' = min (max (score s * (1 / 2)) 30) 100
                      \<and> factors s' = factors s @ [''whitelisted_but_smurfing_member'']
                      \<and> patterns s' = patterns s)))
       \<and> (map_of (velocity_scores e) a = None \<longrightarrow>
            map_of (fst (calculate_suspicion_scores e)) a = None)"
proof (intro conjI impI allI)
  fix s assume "a \<notin> smurfing_members e" "map_of (velocity_scores e) a = Some s"
  then show "map_of (fst (calculate_suspicion_scores e)) a =
      Some (s\<lparr>score := 0, factors := [''whitelisted_legitimate_account''],
              patterns := [], risk_level := ''LOW''\<rparr>)"
    using assms by (simp add: final_whitelisted whitelist_entry_def cap_entry_def Let_def)
next
  assume ns: "a \<notin> smurfing_members e"
  show "a \<notin> ae_account_id ` set (resp_suspicious_accounts (canonical_response e))"
  proof
    assume "a \<in> ae_account_id ` set (resp_suspicious_accounts (canonical_response e))"
    then obtain s where "map_of (fst (calculate_suspicion_scores e)) a = Some s" "score s \<noteq> 0"
      using response_accounts by blast
    then show False using assms ns
      by (auto simp: final_whitelisted whitelist_entry_def cap_entry_def Let_def)
  qed
next
  fix s assume "a \<in> smurfing_members e" "map_of (velocity_scores e) a = Some s"
  then show "map_of (whitelist_scores e) a =
      Some (s\<lparr>score := max (score s * (1 / 2)) 30,
              factors := factors s @ [''whitelisted_but_smurfing_member'']\<rparr>)"
    using assms by (simp add: whitelist_scores_at whitelist_entry_def)
next
  fix s assume "a \<in> smurfing_members e" "map_of (velocity_scores e) a = Some s"
  then show "\<exists>s'. map_of (fst (calculate_suspicion_scores e)) a = Some s'
       \<and> score s' = min (max (score s * (1 / 2)) 30) 100
       \<and> factors s' = factors s @ [''whitelisted_but_smurfing_member'']
       \<and> patterns s' = patterns s"
    using assms by (simp add: final_whitelisted whitelist_entry_def cap_entry_def Let_def)
next
  assume "map_of (velocity_scores e) a = None"
  then show "map_of (fst (calculate_suspicion_scores e)) a = None"
    using assms by (simp add: final_whitelisted)
qed

subsection \<open>The scorer on the examples\<close>

lemmas scorer_defs =
  velocity_scores_def apply_velocity_def account_txns_def df_sorted_def
  base_scores_def score_cycles_def score_fanin_def score_fanout_def score_chains_def
  add_contribution_def default_entry_def rapid_count_def velocity_multiplier_def
  velocity_factor_def digit_char_def interior_def graph_of_def tx_def Let_def

lemma merchant_velocity:
  "velocity_scores merchant_engine =
     [(''R'', \<lparr>score = 42, factors = [''fan_in_hub'', ''velocity_x1.4''], patterns = [''fan_in''],
               risk_level = ''LOW'', entry_ring_id = None\<rparr>)]"
  by (simp add: scorer_defs merchant_engine_def merchant_df_def)

lemma cycle_velocity:
  "velocity_scores (cycle_engine wl) =
     map (\<lambda>a. (a, \<lparr>score = 40, factors = [''cycle_member''], patterns = [''cycle''],
               risk_level = ''LOW'', entry_ring_id = None\<rparr>)) [''A'', ''B'', ''C'']"
  by (simp add: scorer_defs cycle_engine_def cycle_df_def)

lemma cycle_final:
  "fst (calculate_suspicion_scores (cycle_engine [])) =
     map (\<lambda>a. (a, \<lparr>score = 40, factors = [''cycle_member''], patterns = [''cycle''],
               risk_level = ''MEDIUM'', entry_ring_id = None\<rparr>)) [''A'', ''B'', ''C'']"
  by (simp add: calculate_suspicion_scores_def penalty_scores_def whitelist_scores_def
      cycle_velocity)
     (simp add: apply_spread_penalty_def account_txns_def df_sorted_def cap_entry_def
      cycle_engine_def cycle_df_def graph_of_def tx_def Let_def)

text \<open>
  C1 as stated fails on an account without an entry: the whitelisted merchant \<open>M\<close> is
  a sender of the fan-in pattern on \<open>R\<close>, so the stated rule would give it
  \<open>max (0 * 0.5) 30 = 30\<close>; the scorer leaves it without an entry.
\<close>

theorem whitelist_override_counterexample:
  "''M'' \<in> set (whitelisted_accounts merchant_engine)
   \<and> ''M'' \<in> smurfing_members merchant_engine
   \<and> map_of (fst (calculate_suspicion_scores merchant_engine)) ''M'' = None
   \<and> member_score (snd (calculate_suspicion_scores merchant_engine)) ''M'' = 0"
proof -
  have wl: "''M'' \<in> set (whitelisted_accounts merchant_engine)"
    by (simp add: merchant_engine_def)
  have sm: "''M'' \<in> smurfing_members merchant_engine"
    by (simp add: merchant_engine_def smurfing_members_def)
  have none: "map_of (fst (calculate_suspicion_scores merchant_engine)) ''M'' = None"
    by (simp add: final_whitelisted[OF wl] merchant_velocity)
  have "suspicious_accounts (snd (calculate_suspicion_scores merchant_engine))
        = fst (calculate_suspicion_scores merchant_engine)"
    by (simp add: calculate_suspicion_scores_def Let_def)
  then have "member_score (snd (calculate_suspicion_scores merchant_engine)) ''M'' = 0"
    using none by (simp add: member_score_def)
  then show ?thesis using wl sm none by simp
qed

theorem whitelist_override_witness:
  "''A'' \<in> set (whitelisted_accounts (cycle_engine [''A'']))
   \<and> ''A'' \<notin> smurfing_members (cycle_engine [''A''])
   \<and> map_of (fst (calculate_suspicion_scores (cycle_engine [''A'']))) ''A'' =
       Some \<lparr>score = 0, factors = [''whitelisted_legitimate_account''], patterns = [],
             risk_level = ''LOW'', entry_ring_id = None\<rparr>
   \<and> ''A'' \<notin> ae_account_id ` set (resp_suspicious_accounts (canonical_response (cycle_engine [''A''])))
   \<and> ''R'' \<in> set (whitelisted_accounts merchant_engine)
   \<and> ''R'' \<in> smurfing_members merchant_engine
   \<and> map_of (whitelist_scores merchant_engine) ''R'' =
       Some \<lparr>score = 30,
             factors = [''fan_in_hub'', ''velocity_x1.4'', ''whitelisted_but_smurfing_member''],
             patterns = [''fan_in''], risk_level = ''LOW'', entry_ring_id = None\<rparr>"
  using whitelist_override [of "''A''" "cycle_engine [''A'']"]
        whitelist_override [of "''R''" merchant_engine]
  by (simp add: merchant_velocity cycle_velocity)
     (simp add: cycle_engine_def merchant_engine_def smurfing_members_def)

theorem nonzero_score_needs_scored_role_witness:
  "''A'' \<notin> set (whitelisted_accounts (cycle_engine []))
   \<and> map_of (fst (calculate_suspicion_scores (cycle_engine []))) ''A'' =
       Some \<lparr>score = 40, factors = [''cycle_member''], patterns = [''cycle''],
             risk_level = ''MEDIUM'', entry_ring_id = None\<rparr>
   \<and> scored_role (cycle_engine []) ''A''"
  using nonzero_score_needs_scored_role [of "''A''" "cycle_engine []"
      "\<lparr>score = 40, factors = [''cycle_member''], patterns = [''cycle''],
             risk_level = ''MEDIUM'', entry_ring_id = None\<rparr>"]
  by (simp add: cycle_final) (simp add: cycle_engine_def)

section \<open>Properties of the ring constructor and the response builder\<close>

lemma str_nat_digit: "n < 10 \<Longrightarrow> str_nat n = [digit_char n]"
  by (simp add: str_nat.simps)

lemma length_numbered: "length (numbered c xs) = length xs"
  by (simp add: numbered_def)

lemma map_numbered_fst: "map (\<lambda>x. f (fst x)) (numbered c xs) = map f [c..<c + length xs]"
proof -
  have "map (\<lambda>x. f (fst x)) (numbered c xs) = map f (map fst (numbered c xs))"
    by simp
  then show ?thesis by (simp add: numbered_def)
qed

lemma map_numbered_snd: "map (\<lambda>x. f (snd x)) (numbered c xs) = map f xs"
proof -
  have "map (\<lambda>x. f (snd x)) (numbered c xs) = map f (map snd (numbered c xs))"
    by simp
  then show ?thesis by (simp add: numbered_def)
qed

lemma build_fraud_rings_ids:
  "map re_ring_id (build_fraud_rings rs) = map ring_name [1..<1 + length rs]"
  using map_numbered_fst[of ring_name 1 rs]
  by (simp add: build_fraud_rings_def case_prod_unfold comp_def del: upt_Suc)

lemma build_fraud_rings_members:
  "map re_member_accounts (build_fraud_rings rs) = map (\<lambda>r. sort (dict_get (member_accounts r) [])) rs"
  using map_numbered_snd[of "\<lambda>r. sort (dict_get (member_accounts r) [])" 1 rs]
  by (simp add: build_fraud_rings_def case_prod_unfold comp_def)

lemma build_fraud_rings_types:
  "map re_pattern_type (build_fraud_rings rs) = map (\<lambda>r. dict_get (pattern_type r) ''unknown'') rs"
  using map_numbered_snd[of "\<lambda>r. dict_get (pattern_type r) ''unknown''" 1 rs]
  by (simp add: build_fraud_rings_def case_prod_unfold comp_def)

lemma canonical_fraud_rings:
  "resp_fraud_rings (canonical_response e) =
     build_fraud_rings (sort_key (\<lambda>r. - ring_risk r)
        (rings_in_construction_order (snd (calculate_suspicion_scores e))))"
  by (simp add: canonical_response_def build_response_def Let_def
      assign_ring_ids_to_accounts_def construct_fraud_rings_def)

lemma length_construction:
  "length (rings_in_construction_order e) =
     length (detected_cycles e) + length (detected_fanin e)
     + length (detected_fanout e) + length (detected_chains e)"
  by (simp add: rings_in_construction_order_def Let_def length_numbered)

lemma upt_split4:
  "[c..<c + (k + l + m + n)] = [c..<c + k] @ [c + k..<c + k + l] @ [c + k + l..<c + k + l + m]
      @ [c + k + l + m..<c + k + l + m + n]"
  by (metis add.assoc upt_add_eq_append le_add1)

lemma numbered_ring_ids:
  "map (\<lambda>x. Some (ring_name (fst x))) (numbered c xs) = map (\<lambda>n. Some (ring_name n)) [c..<c + length xs]"
  by (rule map_numbered_fst)

lemma numbered_const: "map (\<lambda>x. v) (numbered c xs) = replicate (length xs) v"
  by (simp add: map_replicate_const length_numbered)

lemma numbered_snd_some: "map (\<lambda>x. Some (snd x)) (numbered c xs) = map Some xs"
  by (rule map_numbered_snd)

lemma numbered_snd_fanin:
  "map (\<lambda>x. Some (receiver (snd x) # senders (snd x))) (numbered c xs)
   = map Some (map (\<lambda>p. receiver p # senders p) xs)"
  using map_numbered_snd[of "\<lambda>p. Some (receiver p # senders p)" c xs] by (simp add: comp_def)

lemma numbered_snd_fanout:
  "map (\<lambda>x. Some (sender (snd x) # receivers (snd x))) (numbered c xs)
   = map Some (map (\<lambda>p. sender p # receivers p) xs)"
  using map_numbered_snd[of "\<lambda>p. Some (sender p # receivers p)" c xs] by (simp add: comp_def)

lemmas ring_ctor_defs =
  rings_in_construction_order_def Let_def cycle_ring_def fanin_ring_def
  fanout_ring_def chain_ring_def make_ring_def case_prod_unfold comp_def

lemma construction_ids:
  "map ring_id (rings_in_construction_order e) =
     map (\<lambda>n. Some (ring_name n)) [1..<1 + length (rings_in_construction_order e)]"
  unfolding length_construction upt_split4
  by (simp add: ring_ctor_defs numbered_ring_ids add.assoc del: upt_Suc)

lemma construction_types:
  "map pattern_type (rings_in_construction_order e) =
     replicate (length (detected_cycles e)) (Some ''cycle'')
     @ replicate (length (detected_fanin e)) (Some ''fan_in'')
     @ replicate (length (detected_fanout e)) (Some ''fan_out'')
     @ replicate (length (detected_chains e)) (Some ''shell_chain'')"
  by (simp add: ring_ctor_defs numbered_const)

lemma construction_members:
  "map member_accounts (rings_in_construction_order e) =
     map Some (detected_cycles e
               @ map (\<lambda>p. receiver p # senders p) (detected_fanin e)
               @ map (\<lambda>p. sender p # receivers p) (detected_fanout e)
               @ detected_chains e)"
  by (simp add: ring_ctor_defs numbered_snd_some numbered_snd_fanin numbered_snd_fanout)

lemma sorted_neg_rev:
  fixes f :: "'a \<Rightarrow> real"
  shows "sorted (map (\<lambda>x. - f x) xs) \<Longrightarrow> sorted (rev (map f xs))"
  by (induction xs) (auto simp: sorted_append)

text \<open>
  Claim C2, as amended. The ring constructor builds the rings in detection order (cycles,
  then fan-in, fan-out and shell chains) and numbers them in that order, but it returns
  them stably sorted by risk score, highest first. The response builder numbers the
  rings \<open>RING_001\<close>, \<open>RING_002\<close>, ... by their position in that sorted list.
  So the ids of the canonical response follow descending risk score, and detection order
  only among rings of equal risk score.
\<close>

theorem ring_ids_follow_risk_order:
  fixes e :: engine
  defines "cons \<equiv> rings_in_construction_order (snd (calculate_suspicion_scores e))"
  defines "ranked \<equiv> sort_key (\<lambda>r. - ring_risk r) cons"
  shows "resp_fraud_rings (canonical_response e) = build_fraud_rings ranked
       \<and> map re_ring_id (resp_fraud_rings (canonical_response e)) = map ring_name [1..<1 + length cons]
       \<and> map re_member_accounts (resp_fraud_rings (canonical_response e))
           = map (\<lambda>r. sort (dict_get (member_accounts r) [])) ranked
       \<and> map re_pattern_type (resp_fraud_rings (canonical_response e))
           = map (\<lambda>r. dict_get (pattern_type r) ''unknown'') ranked
       \<and> sorted (rev (map ring_risk ranked))
       \<and> (\<forall>v. filter (\<lambda>r. ring_risk r = v) ranked = filter (\<lambda>r. ring_risk r = v) cons)
       \<and> map ring_id cons = map (\<lambda>n. Some (ring_name n)) [1..<1 + length cons]
       \<and> map pattern_type cons =
           replicate (length (detected_cycles e)) (Some ''cycle'')
           @ replicate (length (detected_fanin e)) (Some ''fan_in'')
           @ replicate (length (detected_fanout e)) (Some ''fan_out'')
           @ replicate (length (detected_chains e)) (Some ''shell_chain'')
       \<and> map member_accounts cons =
           map Some (detected_cycles e
               @ map (\<lambda>p. receiver p # senders p) (detected_fanin e)
               @ map (\<lambda>p. sender p # receivers p) (detected_fanout e)
               @ detected_chains e)"
proof -
  let ?e1 = "snd (calculate_suspicion_scores e)"
  have pat: "detected_cycles ?e1 = detected_cycles e" "detected_fanin ?e1 = detected_fanin e"
    "detected_fanout ?e1 = detected_fanout e" "detected_chains ?e1 = detected_chains e"
    by (simp_all add: calculate_suspicion_scores_def Let_def)
  have resp: "resp_fraud_rings (canonical_response e) = build_fraud_rings ranked"
    by (simp add: canonical_fraud_rings ranked_def cons_def)
  have len: "length ranked = length cons" by (simp add: ranked_def)
  have desc: "sorted (rev (map ring_risk ranked))"
  proof -
    have "sorted (map (\<lambda>r. - ring_risk r) ranked)" by (simp add: ranked_def)
    then show ?thesis by (rule sorted_neg_rev)
  qed
  have stable: "\<forall>v. filter (\<lambda>r. ring_risk r = v) ranked = filter (\<lambda>r. ring_risk r = v) cons"
  proof
    fix v
    have "filter (\<lambda>r. - ring_risk r = - v) (sort_key (\<lambda>r. - ring_risk r) cons)
          = filter (\<lambda>r. - ring_risk r = - v) cons"
      by (rule sort_key_stable)
    then show "filter (\<lambda>r. ring_risk r = v) ranked = filter (\<lambda>r. ring_risk r = v) cons"
      by (simp add: ranked_def)
  qed
  show ?thesis
    unfolding resp build_fraud_rings_ids build_fraud_rings_members build_fraud_rings_types len
    using desc stable construction_ids[of ?e1] construction_types[of ?e1]
      construction_members[of ?e1]
    unfolding pat cons_def by blast
qed


lemma two_cycle_velocity:
  "velocity_scores two_cycle_engine =
     map (\<lambda>a. (a, \<lparr>score = 40, factors = [''cycle_member''], patterns = [''cycle''],
               risk_level = ''LOW'', entry_ring_id = None\<rparr>)) [''A'', ''B'', ''C'', ''D'', ''E'', ''F'']"
  by (simp add: scorer_defs two_cycle_engine_def two_cycle_df_def)

lemma two_cycle_final:
  "fst (calculate_suspicion_scores two_cycle_engine) =
     map (\<lambda>a. (a, \<lparr>score = 28, factors = [''cycle_member'', ''spread_over_time''],
               patterns = [''cycle''], risk_level = ''LOW'', entry_ring_id = None\<rparr>))
       [''A'', ''B'', ''C'']
     @ map (\<lambda>a. (a, \<lparr>score = 40, factors = [''cycle_member''], patterns = [''cycle''],
               risk_level = ''MEDIUM'', entry_ring_id = None\<rparr>)) [''D'', ''E'', ''F'']"
  by (simp add: calculate_suspicion_scores_def penalty_scores_def whitelist_scores_def
      two_cycle_velocity)
     (simp add: apply_spread_penalty_def account_txns_def df_sorted_def cap_entry_def
      two_cycle_engine_def two_cycle_df_def graph_of_def tx_def Let_def)

lemma engine_after_scores:
  "snd (calculate_suspicion_scores e) = e\<lparr>suspicious_accounts := fst (calculate_suspicion_scores e)\<rparr>"
  by (simp add: calculate_suspicion_scores_def Let_def)

lemma two_cycle_construction:
  "map (\<lambda>r. (ring_id r, member_accounts r, risk_score r))
     (rings_in_construction_order (snd (calculate_suspicion_scores two_cycle_engine))) =
   [(Some ''RING_001'', Some [''A'', ''B'', ''C''], Some 28),
    (Some ''RING_002'', Some [''D'', ''E'', ''F''], Some 40)]"
  unfolding engine_after_scores two_cycle_final
  by (simp add: ring_ctor_defs numbered_def two_cycle_engine_def avg_score_def member_score_def
      ring_name_def fmt03_def str_nat_digit digit_char_def numeral_2_eq_2)

text \<open>
  C2 as stated fails: the first detected cycle is spread over twenty days and scores 28,
  the second scores 40, so the second one becomes \<open>RING_001\<close>.
\<close>

theorem ring_id_order_counterexample:
  "detected_cycles two_cycle_engine = [[''A'', ''B'', ''C''], [''D'', ''E'', ''F'']]
   \<and> map (\<lambda>r. (re_ring_id r, re_member_accounts r))
        (resp_fraud_rings (canonical_response two_cycle_engine))
     = [(''RING_001'', [''D'', ''E'', ''F'']), (''RING_002'', [''A'', ''B'', ''C''])]"
proof -
  obtain r1 r2 where rs: "rings_in_construction_order (snd (calculate_suspicion_scores two_cycle_engine)) = [r1, r2]"
    and r1: "member_accounts r1 = Some [''A'', ''B'', ''C'']" "risk_score r1 = Some 28"
    and r2: "member_accounts r2 = Some [''D'', ''E'', ''F'']" "risk_score r2 = Some 40"
    using two_cycle_construction by auto
  have "sort_key (\<lambda>r. - ring_risk r) [r1, r2] = [r2, r1]"
    by (simp add: ring_risk_def dict_get_def r1 r2)
  then have "resp_fraud_rings (canonical_response two_cycle_engine) = build_fraud_rings [r2, r1]"
    by (simp add: canonical_fraud_rings rs)
  then show ?thesis
    by (simp add: build_fraud_rings_def numbered_def r1 r2 dict_get_def ring_name_def fmt03_def
        str_nat_digit digit_char_def two_cycle_engine_def numeral_2_eq_2)
qed

section \<open>New-ring alerts for constructed rings\<close>

lemma fanin12_sorted: "df_sorted fanin12_engine = fanin12_df"
  by (simp add: df_sorted_def fanin12_engine_def fanin12_df_def tx_def)


lemma fanin12_velocity:
  "velocity_scores fanin12_engine =
     [(''H'', \<lparr>score = 60, factors = [''fan_in_hub'', ''velocity_x2.0''], patterns = [''fan_in''],
               risk_level = ''LOW'', entry_ring_id = None\<rparr>)]"
  by (simp add: scorer_defs fanin12_engine_def fanin12_df_def fanin12_senders_def)

lemma fanin12_final:
  "fst (calculate_suspicion_scores fanin12_engine) =
     [(''H'', \<lparr>score = 30,
               factors = [''fan_in_hub'', ''velocity_x2.0'', ''whitelisted_but_smurfing_member''],
               patterns = [''fan_in''], risk_level = ''LOW'', entry_ring_id = None\<rparr>)]"
  by (simp add: calculate_suspicion_scores_def penalty_scores_def whitelist_scores_def
      fanin12_velocity)
     (simp add: apply_spread_penalty_def apply_whitelist_def smurfing_members_def cap_entry_def
      account_txns_def df_sorted_def fanin12_df_def tx_def
      fanin12_engine_def fanin12_senders_def graph_of_def Let_def)

lemma constructed_ring_is_made:
  assumes "r \<in> set (fst (construct_fraud_rings e))"
  shows "\<exists>n p ms d. r = make_ring e n p ms d"
  using assms
  by (auto simp: construct_fraud_rings_def rings_in_construction_order_def Let_def
      cycle_ring_def fanin_ring_def fanout_ring_def chain_ring_def)

lemma constructed_ring_has_no_members_key:
  assumes "r \<in> set (fst (construct_fraud_rings e))"
  shows "members r = None \<and> pattern r = None"
  using constructed_ring_is_made[OF assms] by (auto simp: make_ring_def)

lemma new_ring_alert_of_constructed:
  assumes "r \<in> set (fst (construct_fraud_rings e))"
  shows "severity (new_ring_alert r) = new_ring_severity (ring_risk r) 0"
  using constructed_ring_has_no_members_key[OF assms]
  by (simp add: new_ring_alert_def Let_def dict_get_def ring_risk_def)

lemma fanin12_rings:
  "fst (construct_fraud_rings (snd (calculate_suspicion_scores fanin12_engine))) =
     [make_ring (snd (calculate_suspicion_scores fanin12_engine)) 1 ''fan_in''
        (''H'' # fanin12_senders)
        (''Smurfing collection: '' @ str_nat 11 @ '' senders '' @ arrow @ '' 1 receiver'')]"
  by (simp add: construct_fraud_rings_def rings_in_construction_order_def Let_def numbered_def
      fanin_ring_def engine_after_scores fanin12_engine_def)

lemma fanin12_avg:
  "avg_score (snd (calculate_suspicion_scores fanin12_engine)) (''H'' # fanin12_senders) = 5 / 2"
  unfolding engine_after_scores fanin12_final
  by (simp add: avg_score_def member_score_def fanin12_senders_def)

lemma length_fanin12_senders: "length fanin12_senders = 11"
  by (simp add: fanin12_senders_def)

text \<open>
  Claim C6 on the code. The ring constructor stores the members under the key
  \<^verbatim>\<open>member_accounts\<close>; \<^verbatim>\<open>detect_new_rings\<close> reads the key
  \<^verbatim>\<open>members\<close>, which no constructed ring has, so its member count is always 0.
  The fan-in ring of eleven senders and their receiver has twelve members and risk score
  2.5; the alert for it is \<open>MEDIUM\<close> with a member count of 0, where C6 asks for
  \<open>CRITICAL\<close>.
\<close>

theorem new_ring_member_count_ignored:
  "map (\<lambda>r. (ring_id r, member_count r, risk_score r))
       (fst (construct_fraud_rings (snd (calculate_suspicion_scores fanin12_engine))))
     = [(Some ''RING_001'', Some 12, Some (5 / 2))]
   \<and> map (\<lambda>a. (alert_type a, severity a, alert_ring_id a, metadata a ! 0))
       (detect_new_rings
          (fst (construct_fraud_rings (snd (calculate_suspicion_scores fanin12_engine)))) {})
     = [(NEW_RING, MEDIUM, Some ''RING_001'', (''member_count'', MNum 0))]"
  unfolding fanin12_rings
  by (simp add: make_ring_def fanin12_avg length_fanin12_senders ring_name_def fmt03_def
      str_nat_digit digit_char_def numeral_2_eq_2 detect_new_rings_def new_ring_alert_def
      new_ring_severity_def dict_get_def Let_def)

section \<open>Properties of the smurfing detector\<close>

lemma keys_add_to_group: "fst ` set (add_to_group k row g) = insert k (fst ` set g)"
proof (induction g)
  case Nil then show ?case by simp
next
  case (Cons kv g)
  obtain k' v where kv: "kv = (k', v)" by (cases kv)
  show ?case unfolding kv using Cons by (cases "k = k'") auto
qed

lemma distinct_add_to_group:
  "distinct (map fst g) \<Longrightarrow> distinct (map fst (add_to_group k row g))"
proof (induction g)
  case Nil then show ?case by simp
next
  case (Cons kv g)
  obtain k' v where kv: "kv = (k', v)" by (cases kv)
  show ?case using Cons keys_add_to_group[of k row g] by (auto simp: kv image_iff)
qed

lemma map_of_add_to_group:
  "map_of (add_to_group k row g) k' =
     (if k' = k then Some ((case map_of g k of None \<Rightarrow> [] | Some rows \<Rightarrow> rows) @ [row])
      else map_of g k')"
  by (induction g) auto

lemma group_rows_snoc:
  "group_rows key (rows @ [row]) = add_to_group (key row) row (group_rows key rows)"
  by (simp add: group_rows_def)

lemma distinct_group_rows: "distinct (map fst (group_rows key rows))"
proof (induction rows rule: rev_induct)
  case Nil then show ?case by (simp add: group_rows_def)
next
  case (snoc row rows)
  then show ?case by (simp add: group_rows_snoc distinct_add_to_group)
qed

lemma map_of_group_rows:
  "map_of (group_rows key rows) k =
     (if k \<in> key ` set rows then Some (filter (\<lambda>t. key t = k) rows) else None)"
proof (induction rows arbitrary: k rule: rev_induct)
  case Nil then show ?case by (simp add: group_rows_def)
next
  case (snoc row rows)
  show ?case
    unfolding group_rows_snoc map_of_add_to_group snoc.IH
    by (auto simp: filter_empty_conv empty_filter_conv) (metis image_eqI)
qed

lemma group_rows_mem:
  assumes "(k, g) \<in> set (group_rows key rows)"
  shows "g = filter (\<lambda>t. key t = k) rows \<and> k \<in> key ` set rows"
proof -
  have "map_of (group_rows key rows) k = Some g"
    using assms distinct_group_rows[of key rows] by simp
  then show ?thesis by (simp add: map_of_group_rows split: if_splits)
qed

lemma group_rows_has:
  assumes "k \<in> key ` set rows"
  shows "(k, filter (\<lambda>t. key t = k) rows) \<in> set (group_rows key rows)"
  using assms map_of_group_rows[of key rows k] by (auto dest: map_of_SomeD)

lemma window_sorted:
  "sorted (map timestamp rows) \<Longrightarrow>
   window_transactions c rows = filter (\<lambda>t. timestamp t \<le> c) rows"
proof (induction rows)
  case Nil then show ?case by (simp add: window_transactions_def)
next
  case (Cons x xs)
  show ?case
  proof (cases "timestamp x \<le> c")
    case True
    then show ?thesis using Cons by (simp add: window_transactions_def not_less)
  next
    case False
    then have "\<forall>y \<in> set xs. \<not> timestamp y \<le> c" using Cons.prems by auto
    then have "filter (\<lambda>t. timestamp t \<le> c) xs = []" by (simp add: filter_empty_conv)
    then show ?thesis using False by (simp add: window_transactions_def)
  qed
qed

lemma enough_senders_remdups:
  "(threshold \<le> int (length (remdups (map sender_id win)))) = enough_senders threshold win"
  by (simp add: enough_senders_def length_remdups_card_conv)

lemma enough_senders_mono:
  "set a \<subseteq> set b \<Longrightarrow> enough_senders T a \<Longrightarrow> enough_senders T b"
  unfolding enough_senders_def
  by (meson List.finite_set card_mono finite_imageI image_mono of_nat_le_iff order_trans)


lemma find_window_spec:
  assumes "sorted (map timestamp (pre @ rows))"
    and "\<forall>x\<in>set pre. \<not> enough_senders T (in_window (pre @ rows) (timestamp x) w)"
  shows "first_window_ok T w (pre @ rows) (find_window sender_id T w rows)"
  using assms
proof (induction rows arbitrary: pre)
  case Nil
  then show ?case by (simp add: first_window_ok_def)
next
  case (Cons t rest)
  let ?g = "pre @ t # rest"
  let ?cw = "window_transactions (timestamp t + w) (t # rest)"
  have sorted_suffix: "sorted (map timestamp (t # rest))"
    using Cons.prems(1) by (simp add: sorted_append)
  have cw_eq: "?cw = filter (\<lambda>x. timestamp x \<le> timestamp t + w) (t # rest)"
    using sorted_suffix by (rule window_sorted)
  have suffix_ge: "\<forall>y\<in>set (t # rest). timestamp t \<le> timestamp y"
    using sorted_suffix by auto
  have pre_le: "\<forall>x\<in>set pre. timestamp x \<le> timestamp t"
    using Cons.prems(1) by (auto simp: sorted_append)
  have inw: "in_window ?g (timestamp t) w =
      filter (\<lambda>x. timestamp x = timestamp t \<and> timestamp x \<le> timestamp t + w) pre @ ?cw"
  proof -
    have a: "filter (\<lambda>x. timestamp t \<le> timestamp x \<and> timestamp x \<le> timestamp t + w) pre
        = filter (\<lambda>x. timestamp x = timestamp t \<and> timestamp x \<le> timestamp t + w) pre"
      using pre_le by (intro filter_cong) auto
    have b: "filter (\<lambda>x. timestamp t \<le> timestamp x \<and> timestamp x \<le> timestamp t + w) (t # rest)
        = filter (\<lambda>x. timestamp x \<le> timestamp t + w) (t # rest)"
      using suffix_ge by (intro filter_cong) auto
    show ?thesis unfolding in_window_def filter_append a b cw_eq ..
  qed
  have tie_bad: "\<not> enough_senders T (in_window ?g (timestamp t) w)"
    if "x \<in> set pre" "timestamp x = timestamp t" for x
    using Cons.prems(2) that by metis
  show ?case
  proof (cases "enough_senders T ?cw")
    case True
    have no_tie: "filter (\<lambda>x. timestamp x = timestamp t \<and> timestamp x \<le> timestamp t + w) pre = []"
    proof (rule ccontr)
      assume "filter (\<lambda>x. timestamp x = timestamp t \<and> timestamp x \<le> timestamp t + w) pre \<noteq> []"
      then obtain x where x: "x \<in> set pre" "timestamp x = timestamp t"
        by (auto simp: filter_empty_conv)
      have "set ?cw \<subseteq> set (in_window ?g (timestamp t) w)" unfolding inw by auto
      then have "enough_senders T (in_window ?g (timestamp t) w)"
        using True by (rule enough_senders_mono)
      then show False using tie_bad[OF x] by simp
    qed
    have win: "in_window ?g (timestamp t) w = ?cw" unfolding inw no_tie by simp
    have fw: "find_window sender_id T w (t # rest) = Some (?cw, timestamp t, timestamp t + w)"
      using True by (simp add: Let_def enough_senders_remdups)
    have minimal: "\<forall>u\<in>set ?g. enough_senders T (in_window ?g (timestamp u) w)
        \<longrightarrow> timestamp t \<le> timestamp u"
    proof (intro ballI impI)
      fix u assume u: "u \<in> set ?g" "enough_senders T (in_window ?g (timestamp u) w)"
      then have "u \<notin> set pre" using Cons.prems(2) by auto
      then have "u \<in> set (t # rest)" using u(1) by auto
      then show "timestamp t \<le> timestamp u" using suffix_ge by blast
    qed
    show ?thesis
      unfolding fw first_window_ok_def
      using True win minimal by (auto intro!: bexI[of _ t])
  next
    case False
    have fw: "find_window sender_id T w (t # rest) = find_window sender_id T w rest"
      using False by (simp add: Let_def enough_senders_remdups)
    have t_bad: "\<not> enough_senders T (in_window ?g (timestamp t) w)"
    proof (cases "filter (\<lambda>x. timestamp x = timestamp t \<and> timestamp x \<le> timestamp t + w) pre = []")
      case True
      then show ?thesis using False unfolding inw by simp
    next
      case False
      then obtain x where x: "x \<in> set pre" "timestamp x = timestamp t"
        by (auto simp: filter_empty_conv)
      then show ?thesis by (rule tie_bad)
    qed
    have s: "sorted (map timestamp ((pre @ [t]) @ rest))" using Cons.prems(1) by simp
    have b: "\<forall>x\<in>set (pre @ [t]). \<not> enough_senders T (in_window ((pre @ [t]) @ rest) (timestamp x) w)"
      using Cons.prems(2) t_bad by auto
    have "first_window_ok T w ((pre @ [t]) @ rest) (find_window sender_id T w rest)"
      using s b by (rule Cons.IH)
    then show ?thesis unfolding fw by simp
  qed
qed

lemma find_window_incoming:
  assumes "sorted (map timestamp g)"
  shows "first_window_ok T w g (find_window sender_id T w g)"
  using find_window_spec[of "[]" g T w] assms by simp


lemma sorted_incoming: "sorted (map timestamp (incoming e r))"
  unfolding incoming_def df_sorted_def by (intro sorted_filter) simp

lemma fan_in_patterns_eq:
  "fan_in_patterns e thr h =
     concat (map (fan_in_of (smurfing_threshold e thr) (3600 * h))
               (group_rows receiver_id (df_sorted e)))"
  by (simp add: fan_in_patterns_def detect_smurfing_patterns_def Let_def smurfing_threshold_def)

lemma fan_in_of_receiver: "p \<in> set (fan_in_of T w (k, g)) \<Longrightarrow> receiver p = k"
  by (auto simp: fan_in_of_def split: if_splits option.splits)

lemma fan_in_of_mem:
  "p \<in> set (fan_in_of T w (k, g)) \<longleftrightarrow>
     T \<le> int (length g) \<and>
     (\<exists>win ws we. find_window sender_id T w g = Some (win, ws, we) \<and>
        p = \<lparr>receiver = k, senders = remdups (map sender_id win),
                 fi_count = length (remdups (map sender_id win)),
                 fi_time_window = (ws, we),
                 fi_total_amount = sum_list (map amount win)\<rparr>)"
proof (cases "find_window sender_id T w g")
  case None
  then show ?thesis by (simp add: fan_in_of_def)
next
  case (Some res)
  obtain win ws we where "res = (win, ws, we)" by (cases res)
  then show ?thesis using Some by (auto simp: fan_in_of_def)
qed

lemma fan_in_of_length: "length (fan_in_of T w kg) \<le> 1"
  by (cases kg) (auto simp: fan_in_of_def split: if_splits option.splits)

lemma at_most_one_per_key:
  assumes "distinct (map fst gs)"
  shows "length (filter (\<lambda>p. receiver p = r) (concat (map (fan_in_of T w) gs))) \<le> 1"
  using assms
proof (induction gs)
  case Nil then show ?case by simp
next
  case (Cons kg gs)
  obtain k g where kg: "kg = (k, g)" by (cases kg)
  show ?case
  proof (cases "k = r")
    case True
    have "\<forall>p \<in> set (concat (map (fan_in_of T w) gs)). receiver p \<noteq> r"
    proof
      fix p assume "p \<in> set (concat (map (fan_in_of T w) gs))"
      then obtain k' g' where "(k', g') \<in> set gs" "p \<in> set (fan_in_of T w (k', g'))" by auto
      then have "receiver p = k'" "k' \<noteq> k"
        using fan_in_of_receiver Cons.prems kg by (auto simp: image_iff)
      then show "receiver p \<noteq> r" using True by simp
    qed
    then have "filter (\<lambda>p. receiver p = r) (concat (map (fan_in_of T w) gs)) = []"
      by (simp add: filter_empty_conv)
    moreover have "length (filter (\<lambda>p. receiver p = r) (fan_in_of T w kg)) \<le> 1"
      using fan_in_of_length[of T w kg] length_filter_le[of "\<lambda>p. receiver p = r" "fan_in_of T w kg"]
      by linarith
    ultimately show ?thesis by simp
  next
    case False
    then have "filter (\<lambda>p. receiver p = r) (fan_in_of T w kg) = []"
      using fan_in_of_receiver kg by (fastforce simp: filter_empty_conv)
    then show ?thesis using Cons by simp
  qed
qed

lemma fan_in_pattern_group:
  "p \<in> set (fan_in_patterns e thr h) \<and> receiver p = r \<longleftrightarrow>
     p \<in> set (fan_in_of (smurfing_threshold e thr) (3600 * h) (r, incoming e r))
     \<and> incoming e r \<noteq> []"
proof
  assume a: "p \<in> set (fan_in_patterns e thr h) \<and> receiver p = r"
  then obtain k g where kg: "(k, g) \<in> set (group_rows receiver_id (df_sorted e))"
      "p \<in> set (fan_in_of (smurfing_threshold e thr) (3600 * h) (k, g))"
    by (auto simp: fan_in_patterns_eq)
  then have "k = r" using a fan_in_of_receiver by blast
  moreover have "g = incoming e k" "k \<in> receiver_id ` set (df_sorted e)"
    using group_rows_mem[OF kg(1)] by (simp_all add: incoming_def)
  ultimately show "p \<in> set (fan_in_of (smurfing_threshold e thr) (3600 * h) (r, incoming e r))
     \<and> incoming e r \<noteq> []"
    using kg(2) by (auto simp: incoming_def filter_empty_conv)
next
  assume a: "p \<in> set (fan_in_of (smurfing_threshold e thr) (3600 * h) (r, incoming e r))
     \<and> incoming e r \<noteq> []"
  then have "r \<in> receiver_id ` set (df_sorted e)"
    by (auto simp: incoming_def filter_empty_conv)
  then have "(r, incoming e r) \<in> set (group_rows receiver_id (df_sorted e))"
    unfolding incoming_def by (rule group_rows_has)
  then show "p \<in> set (fan_in_patterns e thr h) \<and> receiver p = r"
    using a fan_in_of_receiver unfolding fan_in_patterns_eq by fastforce
qed

lemma enough_senders_length:
  "enough_senders T (in_window g s w) \<Longrightarrow> T \<le> int (length g)"
proof -
  assume "enough_senders T (in_window g s w)"
  then have "T \<le> int (card (sender_id ` set (in_window g s w)))"
    by (simp add: enough_senders_def)
  also have "card (sender_id ` set (in_window g s w)) \<le> card (set (in_window g s w))"
    by (simp add: card_image_le)
  also have "\<dots> \<le> length (in_window g s w)" by (rule card_length)
  also have "\<dots> \<le> length g" by (simp add: in_window_def)
  finally show ?thesis by simp
qed

text \<open>
  Claim C4, as amended: the window is closed at both ends. With \<open>g\<close> the incoming
  transactions of receiver \<open>r\<close> in timestamp order, \<open>T\<close> the threshold and \<open>w\<close>
  the window length: at most one fan-in pattern is emitted for \<open>r\<close>; one is emitted
  exactly when some transaction time \<open>t\<close> of \<open>g\<close> has at least \<open>T\<close> distinct senders
  among the transactions with timestamp in \<open>[t, t + w]\<close>; the emitted pattern sits at
  the least such \<open>t\<close>, and records exactly the distinct senders and the summed amount
  of the transactions with timestamp in \<open>[t, t + w]\<close>, the one at exactly \<open>t + w\<close>
  included. A receiver with a pattern has at least \<open>T\<close> incoming transactions.
\<close>

theorem fan_in_emission:
  fixes e :: engine and thr :: "int option" and h :: int and r :: account
  defines "T \<equiv> smurfing_threshold e thr"
  defines "w \<equiv> 3600 * h"
  defines "g \<equiv> incoming e r"
  defines "fi \<equiv> fan_in_patterns e thr h"
  shows "length (filter (\<lambda>p. receiver p = r) fi) \<le> 1
       \<and> ((\<exists>p\<in>set fi. receiver p = r) \<longleftrightarrow>
            (\<exists>t\<in>set g. enough_senders T (in_window g (timestamp t) w)))
       \<and> (\<forall>p\<in>set fi. receiver p = r \<longrightarrow>
            (\<exists>t\<in>set g.
               fi_time_window p = (timestamp t, timestamp t + w)
               \<and> enough_senders T (in_window g (timestamp t) w)
               \<and> (\<forall>u\<in>set g. enough_senders T (in_window g (timestamp u) w)
                      \<longrightarrow> timestamp t \<le> timestamp u)
               \<and> set (senders p) = sender_id ` set (in_window g (timestamp t) w)
               \<and> distinct (senders p)
               \<and> fi_count p = card (sender_id ` set (in_window g (timestamp t) w))
               \<and> fi_total_amount p = sum_list (map amount (in_window g (timestamp t) w))
               \<and> T \<le> int (length g)))"
proof -
  have ok: "first_window_ok T w g (find_window sender_id T w g)"
    unfolding g_def by (rule find_window_incoming) (rule sorted_incoming)
  have one: "length (filter (\<lambda>p. receiver p = r) fi) \<le> 1"
    unfolding fi_def fan_in_patterns_eq by (rule at_most_one_per_key) (rule distinct_group_rows)
  have mem: "\<And>p. (p \<in> set fi \<and> receiver p = r) = (p \<in> set (fan_in_of T w (r, g)) \<and> g \<noteq> [])"
    unfolding fi_def T_def w_def g_def by (rule fan_in_pattern_group)
  have exists_iff: "(\<exists>p\<in>set fi. receiver p = r) \<longleftrightarrow>
            (\<exists>t\<in>set g. enough_senders T (in_window g (timestamp t) w))"
  proof
    assume "\<exists>p\<in>set fi. receiver p = r"
    then obtain p where "p \<in> set (fan_in_of T w (r, g))" using mem by blast
    then obtain win ws we where "find_window sender_id T w g = Some (win, ws, we)"
      unfolding fan_in_of_mem by blast
    then show "\<exists>t\<in>set g. enough_senders T (in_window g (timestamp t) w)"
      using ok by (auto simp: first_window_ok_def)
  next
    assume a: "\<exists>t\<in>set g. enough_senders T (in_window g (timestamp t) w)"
    then have len: "T \<le> int (length g)" "g \<noteq> []" using enough_senders_length by auto
    from a ok obtain win ws we where "find_window sender_id T w g = Some (win, ws, we)"
      by (cases "find_window sender_id T w g") (auto simp: first_window_ok_def)
    then have "fan_in_of T w (r, g) \<noteq> []" using len by (simp add: fan_in_of_def)
    then obtain p where "p \<in> set (fan_in_of T w (r, g))" by (cases "fan_in_of T w (r, g)") auto
    then show "\<exists>p\<in>set fi. receiver p = r" using mem len(2) by blast
  qed
  have props: "\<forall>p\<in>set fi. receiver p = r \<longrightarrow>
            (\<exists>t\<in>set g.
               fi_time_window p = (timestamp t, timestamp t + w)
               \<and> enough_senders T (in_window g (timestamp t) w)
               \<and> (\<forall>u\<in>set g. enough_senders T (in_window g (timestamp u) w)
                      \<longrightarrow> timestamp t \<le> timestamp u)
               \<and> set (senders p) = sender_id ` set (in_window g (timestamp t) w)
               \<and> distinct (senders p)
               \<and> fi_count p = card (sender_id ` set (in_window g (timestamp t) w))
               \<and> fi_total_amount p = sum_list (map amount (in_window g (timestamp t) w))
               \<and> T \<le> int (length g))"
  proof (intro ballI impI)
    fix p assume "p \<in> set fi" "receiver p = r"
    then have p: "p \<in> set (fan_in_of T w (r, g))" using mem by blast
    then obtain win ws we where fw: "find_window sender_id T w g = Some (win, ws, we)"
      and len: "T \<le> int (length g)"
      and pdef: "p = \<lparr>receiver = r, senders = remdups (map sender_id win),
                 fi_count = length (remdups (map sender_id win)),
                 fi_time_window = (ws, we),
                 fi_total_amount = sum_list (map amount win)\<rparr>"
      unfolding fan_in_of_mem by blast
    from ok fw obtain t where t: "t \<in> set g" "ws = timestamp t" "we = timestamp t + w"
        "win = in_window g (timestamp t) w" "enough_senders T win"
        "\<forall>u\<in>set g. enough_senders T (in_window g (timestamp u) w) \<longrightarrow> timestamp t \<le> timestamp u"
      by (auto simp: first_window_ok_def)
    show "\<exists>t\<in>set g.
               fi_time_window p = (timestamp t, timestamp t + w)
               \<and> enough_senders T (in_window g (timestamp t) w)
               \<and> (\<forall>u\<in>set g. enough_senders T (in_window g (timestamp u) w)
                      \<longrightarrow> timestamp t \<le> timestamp u)
               \<and> set (senders p) = sender_id ` set (in_window g (timestamp t) w)
               \<and> distinct (senders p)
               \<and> fi_count p = card (sender_id ` set (in_window g (timestamp t) w))
               \<and> fi_total_amount p = sum_list (map amount (in_window g (timestamp t) w))
               \<and> T \<le> int (length g)"
      using t len unfolding pdef
      by (intro bexI[of _ t]) (simp_all add: length_remdups_card_conv)
  qed
  show ?thesis using one exists_iff props by blast
qed

subsection \<open>The detector on the boundary example\<close>

lemma edge_window_sorted: "df_sorted edge_window_engine = edge_window_df"
  by (simp add: df_sorted_def edge_window_engine_def edge_window_df_def tx_def)

lemma edge_window_incoming: "incoming edge_window_engine ''R'' = edge_window_df"
  by (simp add: incoming_def edge_window_sorted) (simp add: edge_window_df_def tx_def)

lemma edge_window_fan_in:
  "fst (fst (detect_smurfing_patterns edge_window_engine None 72)) =
     [\<lparr>receiver = ''R'', senders = [''S1'', ''S2'', ''S3'', ''S4'', ''S5''], fi_count = 5,
       fi_time_window = (0, 259200), fi_total_amount = 500\<rparr>]"
  unfolding detect_smurfing_patterns_def Let_def edge_window_sorted
  by (simp add: adaptive_threshold_def edge_window_engine_def graph_of_def edge_window_df_def
      tx_def group_rows_def fan_in_of_def window_transactions_def Let_def)

lemma edge_window_patterns:
  "fan_in_patterns edge_window_engine None 72 =
     [\<lparr>receiver = ''R'', senders = [''S1'', ''S2'', ''S3'', ''S4'', ''S5''], fi_count = 5,
       fi_time_window = (0, 259200), fi_total_amount = 500\<rparr>]"
  by (simp add: fan_in_patterns_def edge_window_fan_in)

theorem fan_in_emission_witness:
  "(\<exists>p\<in>set (fan_in_patterns edge_window_engine None 72). receiver p = ''R'')
   \<and> (\<exists>t\<in>set (incoming edge_window_engine ''R'').
         enough_senders (smurfing_threshold edge_window_engine None)
           (in_window (incoming edge_window_engine ''R'') (timestamp t) (3600 * 72)))
   \<and> (\<exists>t\<in>set (incoming edge_window_engine ''R'').
         set [''S1'', ''S2'', ''S3'', ''S4'', ''S5'']
           = sender_id ` set (in_window (incoming edge_window_engine ''R'') (timestamp t) (3600 * 72)))"
proof -
  let ?p = "\<lparr>receiver = ''R'', senders = [''S1'', ''S2'', ''S3'', ''S4'', ''S5''], fi_count = 5,
       fi_time_window = (0, 259200), fi_total_amount = 500\<rparr>"
  note th = fan_in_emission [of "''R''" edge_window_engine None 72]
  have p: "?p \<in> set (fan_in_patterns edge_window_engine None 72)" "receiver ?p = ''R''"
    by (simp_all add: edge_window_patterns)
  then have ex: "\<exists>p\<in>set (fan_in_patterns edge_window_engine None 72). receiver p = ''R''"
    by (intro bexI[of _ ?p])
  have enough: "\<exists>t\<in>set (incoming edge_window_engine ''R'').
         enough_senders (smurfing_threshold edge_window_engine None)
           (in_window (incoming edge_window_engine ''R'') (timestamp t) (3600 * 72))"
    using th[THEN conjunct2, THEN conjunct1] ex by (rule iffD1)
  have "\<exists>t\<in>set (incoming edge_window_engine ''R'').
         set (senders ?p)
           = sender_id ` set (in_window (incoming edge_window_engine ''R'') (timestamp t) (3600 * 72))"
    using th[THEN conjunct2, THEN conjunct2, THEN bspec, OF p(1), THEN mp, OF p(2)]
    by (elim bexE conjE) (rule bexI)
  then show ?thesis using ex enough by simp
qed

text \<open>
  C4 as stated fails at the window's end. Four senders pay \<open>R\<close> in the first three
  hours and a fifth exactly 72 hours after the first. With the default threshold 5 the
  detector emits a pattern with all five senders; the half-open window holds four.
\<close>

theorem fan_in_window_counterexample:
  "map senders (fan_in_patterns edge_window_engine None 72) = [[''S1'', ''S2'', ''S3'', ''S4'', ''S5'']]
   \<and> map fi_time_window (fan_in_patterns edge_window_engine None 72) = [(0, 0 + 3600 * 72)]
   \<and> map (\<lambda>t. (sender_id t, timestamp t))
        (filter (\<lambda>t. 0 \<le> timestamp t \<and> timestamp t < 0 + 3600 * 72)
           (incoming edge_window_engine ''R''))
       = [(''S1'', 0), (''S2'', 3600), (''S3'', 7200), (''S4'', 10800)]
   \<and> map (\<lambda>t. (sender_id t, timestamp t))
        (filter (\<lambda>t. timestamp t = 0 + 3600 * 72) (incoming edge_window_engine ''R''))
       = [(''S5'', 259200)]"
  by (simp add: edge_window_patterns edge_window_incoming) (simp add: edge_window_df_def tx_def)

section \<open>Properties of the cycle detector\<close>

lemma collect_cycles_Cons:
  "collect_cycles mn mx ((t, c) # rest) acc =
     (if t > CYCLE_ENUMERATION_TIMEOUT then acc
      else if length acc \<ge> MAX_CYCLES_LIMIT then acc
      else if length_ok mn mx c then collect_cycles mn mx rest (acc @ [c])
      else collect_cycles mn mx rest acc)"
  by (simp add: length_ok_def)

text \<open>
  The loop in closed form: of the cycles that come out before the first reading above the
  budget, those of fitting length, and of these the first 500.
\<close>

lemma collect_cycles_closed_form:
  "collect_cycles mn mx enum acc
     = acc @ take (MAX_CYCLES_LIMIT - length acc)
               (filter (length_ok mn mx) (map snd (takeWhile within_budget enum)))"
proof (induction enum arbitrary: acc)
  case Nil then show ?case by simp
next
  case (Cons x enum)
  obtain t c where x: "x = (t, c)" by (cases x)
  show ?case
  proof (cases "t > CYCLE_ENUMERATION_TIMEOUT")
    case True
    then show ?thesis by (simp add: x within_budget_def)
  next
    case False
    note nt = this
    show ?thesis
    proof (cases "length acc \<ge> MAX_CYCLES_LIMIT")
      case True
      then show ?thesis using nt by (simp add: x within_budget_def)
    next
      case False
      then obtain n where n: "MAX_CYCLES_LIMIT - length acc = Suc n"
        by (cases "MAX_CYCLES_LIMIT - length acc") auto
      show ?thesis
      proof (cases "length_ok mn mx c")
        case True
        have "collect_cycles mn mx (x # enum) acc = collect_cycles mn mx enum (acc @ [c])"
          using nt False True by (simp add: x collect_cycles_Cons del: collect_cycles.simps(2))
        also have "\<dots> = (acc @ [c]) @ take (MAX_CYCLES_LIMIT - length (acc @ [c]))
               (filter (length_ok mn mx) (map snd (takeWhile within_budget enum)))"
          by (rule Cons.IH)
        also have "MAX_CYCLES_LIMIT - length (acc @ [c]) = n" using n by simp
        finally show ?thesis using nt True n by (simp add: x within_budget_def)
      next
        case nl: False
        have "collect_cycles mn mx (x # enum) acc = collect_cycles mn mx enum acc"
          using nt False nl by (simp add: x collect_cycles_Cons del: collect_cycles.simps(2))
        then show ?thesis using nt nl Cons.IH[of acc] by (simp add: x within_budget_def)
      qed
    qed
  qed
qed

lemma zip_rotate1:
  "zip (x # xs) (xs @ [z]) = zip (x # xs) xs @ [(last (x # xs), z)]"
  by (induction xs arbitrary: x) simp_all

lemma zip_snoc_tl:
  "zip (x # xs @ [w]) (xs @ [w]) = zip (x # xs) xs @ [(last (x # xs), w)]"
  by (induction xs arbitrary: x) simp_all

subsection \<open>The generator yields the elementary cycles\<close>

lemma open_path_closed:
  assumes "open_path G s p" and "(last p, s) \<in> set (edges G)"
  shows "elementary_cycle G p"
proof -
  from assms(1) obtain xs where p: "p = s # xs" by (cases p) (auto simp: open_path_def)
  have "zip p (rotate1 p) = zip p (tl p) @ [(last p, s)]"
    by (simp add: p zip_rotate1 del: zip_Cons_Cons)
  then show ?thesis using assms by (simp add: elementary_cycle_def open_path_def)
qed

lemma open_path_snoc:
  assumes "open_path G s p" and "w \<in> set (successors G (last p))"
    and "w \<notin> set p" and "w \<in> set (nodes G)"
  shows "open_path G s (p @ [w])"
proof -
  from assms(1) obtain xs where p: "p = s # xs" by (cases p) (auto simp: open_path_def)
  have e: "(last p, w) \<in> set (edges G)" using assms(2) by (auto simp: successors_def)
  have "zip (p @ [w]) (tl (p @ [w])) = zip p (tl p) @ [(last p, w)]"
    using zip_snoc_tl[of s xs w] by (simp add: p del: zip_Cons_Cons)
  then show ?thesis using assms e by (auto simp: open_path_def p)
qed

lemma cycles_from_sound:
  "open_path G s path \<Longrightarrow> set allowed \<subseteq> set (nodes G) \<Longrightarrow> set allowed \<inter> set path = {}
     \<Longrightarrow> c \<in> set (cycles_from G s allowed path) \<Longrightarrow> elementary_cycle G c"
  "open_path G s path \<Longrightarrow> set allowed \<subseteq> set (nodes G) \<Longrightarrow> set allowed \<inter> set path = {}
     \<Longrightarrow> set ws \<subseteq> set (successors G (last path))
     \<Longrightarrow> c \<in> set (cycles_through G s allowed path ws) \<Longrightarrow> elementary_cycle G c"
proof (induction G s allowed path and G s allowed path ws rule: cycles_from_cycles_through.induct)
  case (1 G s allowed path)
  from "1.prems"(4) consider
      (close) "(last path, s) \<in> set (edges G)" "c = path"
    | (ext) "c \<in> set (cycles_through G s allowed path (successors G (last path)))"
    by (auto split: if_splits)
  then show ?case
  proof cases
    case close
    then show ?thesis using "1.prems"(1) open_path_closed by simp
  next
    case ext
    then show ?thesis using "1.IH" "1.prems"(1,2,3) by simp
  qed
next
  case (2 G s allowed path)
  then show ?case by simp
next
  case (3 G s allowed path w ws)
  from "3.prems"(5) consider
      (here) "w \<in> set allowed" "c \<in> set (cycles_from G s (removeAll w allowed) (path @ [w]))"
    | (later) "c \<in> set (cycles_through G s allowed path ws)"
    by (auto split: if_splits)
  then show ?case
  proof cases
    case here
    have ws: "w \<in> set (successors G (last path))" using "3.prems"(4) by simp
    have "w \<notin> set path" "w \<in> set (nodes G)" using here(1) "3.prems"(2,3) by auto
    then have op: "open_path G s (path @ [w])"
      using open_path_snoc[OF "3.prems"(1) ws] by simp
    have "set (removeAll w allowed) \<subseteq> set (nodes G)" using "3.prems"(2) by auto
    moreover have "set (removeAll w allowed) \<inter> set (path @ [w]) = {}"
      using "3.prems"(3) by auto
    ultimately show ?thesis using "3.IH"(1)[OF here(1) op] here(2) by simp
  next
    case later
    then show ?thesis using "3.IH"(2) "3.prems"(1,2,3,4) by simp
  qed
qed

lemma cycles_over_sound:
  "set ns \<subseteq> set (nodes G) \<Longrightarrow> c \<in> set (cycles_over G ns) \<Longrightarrow> elementary_cycle G c"
proof (induction ns)
  case Nil then show ?case by simp
next
  case (Cons s later)
  have "open_path G s [s]" using Cons.prems(1) by (simp add: open_path_def)
  moreover have "set (removeAll s later) \<subseteq> set (nodes G)" using Cons.prems(1) by auto
  moreover have "set (removeAll s later) \<inter> set [s] = {}" by simp
  ultimately have "c \<in> set (cycles_from G s (removeAll s later) [s]) \<Longrightarrow> elementary_cycle G c"
    by (rule cycles_from_sound(1))
  then show ?case using Cons by (auto split: if_splits)
qed

lemma simple_cycles_sound:
  "c \<in> set (simple_cycles G) \<Longrightarrow> elementary_cycle G c"
  unfolding simple_cycles_def by (rule cycles_over_sound) simp_all

lemma map_snd_timed: "map snd (timed clock xs) = xs"
  by (simp add: timed_def)


text \<open>
  Conversely, every elementary cycle of the graph comes out of the generator, written
  from the node of the cycle that is earliest in the node order.
\<close>

lemma cycles_through_complete:
  assumes "c \<in> set (cycles_from G s (removeAll w allowed) (path @ [w]))"
    and "w \<in> set ws" and "w \<in> set allowed"
  shows "c \<in> set (cycles_through G s allowed path ws)"
  using assms(2)
proof (induction ws)
  case Nil then show ?case by simp
next
  case (Cons v ws)
  then show ?case using assms(1,3) by auto
qed

lemma cycles_from_complete:
  assumes "list_all (\<lambda>e. e \<in> set (edges G)) (zip (path @ rest) (tl (path @ rest)))"
    and "(last (path @ rest), s) \<in> set (edges G)"
    and "path \<noteq> []" and "distinct rest" and "set rest \<subseteq> set allowed"
  shows "path @ rest \<in> set (cycles_from G s allowed path)"
  using assms
proof (induction rest arbitrary: path allowed)
  case Nil
  then show ?case by simp
next
  case (Cons w rest)
  obtain x xs where p: "path = x # xs" using Cons.prems(3) by (cases path) auto
  have eq: "path @ w # rest = (path @ [w]) @ rest" by simp
  have "zip (path @ w # rest) (tl (path @ w # rest))
        = zip (x # xs) xs @ (last (x # xs), w) # zip (w # rest) rest"
    unfolding p by (induction xs arbitrary: x) simp_all
  then have e: "(last path, w) \<in> set (edges G)" using Cons.prems(1) by (simp add: p)
  then have w: "w \<in> set (successors G (last path))" by (force simp: successors_def)
  have "(path @ [w]) @ rest \<in> set (cycles_from G s (removeAll w allowed) (path @ [w]))"
  proof (rule Cons.IH)
    show "list_all (\<lambda>e. e \<in> set (edges G)) (zip ((path @ [w]) @ rest) (tl ((path @ [w]) @ rest)))"
      using Cons.prems(1) by simp
    show "(last ((path @ [w]) @ rest), s) \<in> set (edges G)" using Cons.prems(2) by simp
    show "path @ [w] \<noteq> []" by simp
    show "distinct rest" using Cons.prems(4) by simp
    show "set rest \<subseteq> set (removeAll w allowed)" using Cons.prems(4,5) by auto
  qed
  then have "path @ w # rest \<in> set (cycles_through G s allowed path (successors G (last path)))"
    using cycles_through_complete[OF _ w, of "path @ w # rest" G s allowed path] Cons.prems(5) by simp
  then show ?case by simp
qed

lemma cycles_over_complete:
  assumes "elementary_cycle G (s # xs)" and "ns = pre @ s # later"
    and "set (s # xs) \<inter> set pre = {}" and "set xs \<subseteq> set later"
  shows "s # xs \<in> set (cycles_over G ns)"
  using assms(2,3)
proof (induction pre arbitrary: ns)
  case Nil
  have z: "zip (s # xs) (rotate1 (s # xs)) = zip (s # xs) xs @ [(last (s # xs), s)]"
    by (simp add: zip_rotate1 del: zip_Cons_Cons)
  have ec: "list_all (\<lambda>e. e \<in> set (edges G)) (zip (s # xs) xs)" "(last (s # xs), s) \<in> set (edges G)"
      "distinct (s # xs)" "s \<in> set (nodes G)"
    using assms(1) unfolding elementary_cycle_def z by simp_all
  have out: "\<exists>v. (s, v) \<in> set (edges G)"
  proof (cases xs)
    case Nil then show ?thesis using ec(2) by auto
  next
    case (Cons y ys) then show ?thesis using ec(1) by auto
  qed
  have "filter (\<lambda>e. snd e = s) (edges G) \<noteq> []" using ec(2) by (force simp: filter_empty_conv)
  moreover have "filter (\<lambda>e. fst e = s) (edges G) \<noteq> []" using out by (force simp: filter_empty_conv)
  ultimately have cand: "candidate G s"
    using ec(4) by (simp add: candidate_def in_degree_def out_degree_def Suc_le_eq)
  have "[s] @ xs \<in> set (cycles_from G s (removeAll s later) [s])"
  proof (rule cycles_from_complete)
    show "list_all (\<lambda>e. e \<in> set (edges G)) (zip ([s] @ xs) (tl ([s] @ xs)))" using ec(1) by simp
    show "(last ([s] @ xs), s) \<in> set (edges G)" using ec(2) by simp
    show "[s] \<noteq> []" by simp
    show "distinct xs" using ec(3) by simp
    show "set xs \<subseteq> set (removeAll s later)" using assms(4) ec(3) by auto
  qed
  then show ?case using cand Nil by (simp del: cycles_from.simps)
next
  case (Cons p pre)
  have "s # xs \<in> set (cycles_over G (pre @ s # later))"
    using Cons.prems(2) by (intro Cons.IH) auto
  then show ?case using Cons.prems(1) by simp
qed

lemma simple_cycles_complete:
  assumes "elementary_cycle G (s # xs)" and "nodes G = pre @ s # later"
    and "set (s # xs) \<inter> set pre = {}" and "set xs \<subseteq> set later"
  shows "s # xs \<in> set (simple_cycles G)"
  unfolding simple_cycles_def using assms by (rule cycles_over_complete)

lemma budget_simple_cycles:
  "simple_cycles (graph budget_engine)
     = [[''A'', ''B'', ''C''], [''D'', ''E''], [''F'', ''G'', ''H'']]"
  by (simp add: simple_cycles_def budget_engine_def graph_of_def budget_df_def tx_def
      candidate_def in_degree_def out_degree_def successors_def)

lemma budget_detected:
  "fst (detect_cycles budget_engine 3 5 slow_clock) = [[''A'', ''B'', ''C'']]"
  by (simp add: detect_cycles_def Let_def budget_simple_cycles timed_def slow_clock_def
      CYCLE_ENUMERATION_TIMEOUT_def MAX_CYCLES_LIMIT_def upt_rec)

subsection \<open>The detector\<close>

text \<open>
  Claim C9. Whatever the clock reads, \<^verbatim>\<open>detect_cycles\<close> returns the cycles of
  fitting length among those the generator yields before the first reading above 5
  seconds, and of these the first 500: the partial list when the budget or the cap stops
  the loop, never an error. The loop does so for every sequence a generator may yield.
  Hence at most 500 cycles come back; each is an elementary cycle of the graph and has a
  length between \<open>min_length\<close> and \<open>max_length\<close>, with the defaults 3, 4 or 5; and
  the list returned is the one stored in \<^verbatim>\<open>detected_cycles\<close>.
\<close>

theorem detect_cycles_caps:
  "fst (detect_cycles e mn mx clock)
     = take 500 (filter (length_ok mn mx)
         (map snd (takeWhile within_budget (timed clock (simple_cycles (graph e))))))
   \<and> collect_cycles mn mx enumeration []
     = take 500 (filter (length_ok mn mx) (map snd (takeWhile within_budget enumeration)))
   \<and> length (fst (detect_cycles e mn mx clock)) \<le> 500
   \<and> (\<forall>c\<in>set (fst (detect_cycles e mn mx clock)).
         elementary_cycle (graph e) c \<and> mn \<le> int (length c) \<and> int (length c) \<le> mx)
   \<and> (\<forall>c\<in>set (fst (detect_cycles e 3 5 clock)). length c \<in> {3, 4, 5})
   \<and> detected_cycles (snd (detect_cycles e mn mx clock)) = fst (detect_cycles e mn mx clock)"
proof -
  have loop: "\<And>mn mx enum. collect_cycles mn mx enum []
      = take 500 (filter (length_ok mn mx) (map snd (takeWhile within_budget enum)))"
    using collect_cycles_closed_form[of _ _ _ "[]"] by (simp add: MAX_CYCLES_LIMIT_def)
  have ds: "\<And>mn mx. fst (detect_cycles e mn mx clock)
      = take 500 (filter (length_ok mn mx)
         (map snd (takeWhile within_budget (timed clock (simple_cycles (graph e))))))"
    by (simp add: detect_cycles_def Let_def loop)
  have mem: "\<And>mn mx c. c \<in> set (fst (detect_cycles e mn mx clock))
      \<Longrightarrow> elementary_cycle (graph e) c \<and> mn \<le> int (length c) \<and> int (length c) \<le> mx"
  proof -
    fix mn mx c assume "c \<in> set (fst (detect_cycles e mn mx clock))"
    then have "c \<in> set (filter (length_ok mn mx)
         (map snd (takeWhile within_budget (timed clock (simple_cycles (graph e))))))"
      unfolding ds by (rule in_set_takeD)
    then have l: "length_ok mn mx c"
      and "c \<in> snd ` set (takeWhile within_budget (timed clock (simple_cycles (graph e))))"
      by simp_all
    then have "c \<in> snd ` set (timed clock (simple_cycles (graph e)))"
      using set_takeWhileD by fastforce
    then have "c \<in> set (map snd (timed clock (simple_cycles (graph e))))" by simp
    then have "c \<in> set (simple_cycles (graph e))" by (simp only: map_snd_timed)
    then have "elementary_cycle (graph e) c" by (rule simple_cycles_sound)
    then show "elementary_cycle (graph e) c \<and> mn \<le> int (length c) \<and> int (length c) \<le> mx"
      using l by (simp add: length_ok_def)
  qed
  have len: "length (fst (detect_cycles e mn mx clock)) \<le> 500" unfolding ds by simp
  have mem': "\<forall>c\<in>set (fst (detect_cycles e mn mx clock)).
         elementary_cycle (graph e) c \<and> mn \<le> int (length c) \<and> int (length c) \<le> mx"
    using mem by blast
  have dflt: "\<forall>c\<in>set (fst (detect_cycles e 3 5 clock)). length c \<in> {3, 4, 5}"
  proof
    fix c assume "c \<in> set (fst (detect_cycles e 3 5 clock))"
    then have "3 \<le> int (length c) \<and> int (length c) \<le> 5" using mem by blast
    then show "length c \<in> {3, 4, 5}" by auto
  qed
  have st: "detected_cycles (snd (detect_cycles e mn mx clock)) = fst (detect_cycles e mn mx clock)"
    by (simp add: detect_cycles_def Let_def)
  from ds[of mn mx] loop[of mn mx enumeration] len mem' dflt st show ?thesis
    by (intro conjI)
qed

theorem detect_cycles_caps_witness:
  "simple_cycles (graph budget_engine) = [[''A'', ''B'', ''C''], [''D'', ''E''], [''F'', ''G'', ''H'']]
   \<and> fst (detect_cycles budget_engine 3 5 slow_clock) = [[''A'', ''B'', ''C'']]
   \<and> elementary_cycle (graph budget_engine) [''A'', ''B'', ''C'']
   \<and> collect_cycles 3 5 (replicate 600 (1, [''A'', ''B'', ''C''])) [] = replicate 500 [''A'', ''B'', ''C'']"
proof -
  note t = detect_cycles_caps [of budget_engine 3 5 slow_clock "replicate 600 (1, [''A'', ''B'', ''C''])"]
  have m: "[''A'', ''B'', ''C''] \<in> set (fst (detect_cycles budget_engine 3 5 slow_clock))"
    by (simp add: budget_detected)
  from t have "\<forall>c\<in>set (fst (detect_cycles budget_engine 3 5 slow_clock)).
         elementary_cycle (graph budget_engine) c \<and> 3 \<le> int (length c) \<and> int (length c) \<le> 5"
    by (elim conjE)
  then have el: "elementary_cycle (graph budget_engine) [''A'', ''B'', ''C'']"
    using m by blast
  from t have "collect_cycles 3 5 (replicate 600 (1, [''A'', ''B'', ''C''])) []
     = take 500 (filter (length_ok 3 5)
         (map snd (takeWhile within_budget (replicate 600 (1, [''A'', ''B'', ''C''])))))"
    by (elim conjE)
  then have cap: "collect_cycles 3 5 (replicate 600 (1, [''A'', ''B'', ''C''])) []
     = replicate 500 [''A'', ''B'', ''C'']"
    by (simp add: takeWhile_replicate within_budget_def CYCLE_ENUMERATION_TIMEOUT_def
        length_ok_def)
  from budget_simple_cycles budget_detected el cap show ?thesis by (intro conjI)
qed

section \<open>Properties of the validator\<close>

lemma invalid_positions_empty:
  "invalid_positions bad xs = [] \<longleftrightarrow> (\<forall>x\<in>set xs. \<not> bad x)"
  by (auto simp: invalid_positions_def filter_empty_conv in_set_conv_nth) (metis nth_mem)

lemma validate_amounts_passes:
  "validate_amounts frame = Inr () \<longleftrightarrow> (\<forall>r\<in>set (frame_rows frame). row_amount r \<noteq> NaN)"
  by (simp add: validate_amounts_def Let_def invalid_positions_empty)

lemma validate_amounts_fails:
  "(\<exists>err. validate_amounts frame = Inl err) \<longleftrightarrow> (\<exists>r\<in>set (frame_rows frame). row_amount r = NaN)"
  by (auto simp: validate_amounts_def Let_def invalid_positions_empty)

lemma validate_csv_data_amounts:
  assumes "validate_csv_data frame = Inr frame'"
  shows "frame' = frame \<and> validate_amounts frame = Inr ()"
  using assms
  by (auto simp: validate_csv_data_def split: if_splits sum.splits)

lemma validate_csv_data_fails_on_nan:
  assumes "\<exists>r\<in>set (frame_rows frame). row_amount r = NaN"
  shows "\<exists>err. validate_csv_data frame = Inl err"
proof (cases "validate_csv_data frame")
  case (Inl err) then show ?thesis by blast
next
  case (Inr frame')
  then have "validate_amounts frame = Inr ()" using validate_csv_data_amounts by blast
  then show ?thesis using assms by (simp add: validate_amounts_passes)
qed

text \<open>
  Claim C5, as amended. The amount check fails exactly when some amount cell does not
  convert to a number; every converted value passes it, whatever its sign and whether
  finite or not. A batch with an unconvertible amount is rejected by
  \<^verbatim>\<open>validate_csv_data\<close>, and a batch it accepts is returned unchanged and has no
  such cell.
\<close>

theorem amount_validation:
  "(validate_amounts frame = Inr () \<longleftrightarrow> (\<forall>r\<in>set (frame_rows frame). row_amount r \<noteq> NaN))
   \<and> ((\<exists>err. validate_amounts frame = Inl err) \<longleftrightarrow> (\<exists>r\<in>set (frame_rows frame). row_amount r = NaN))
   \<and> ((\<exists>r\<in>set (frame_rows frame). row_amount r = NaN) \<longrightarrow> (\<exists>err. validate_csv_data frame = Inl err))
   \<and> (\<forall>frame'. validate_csv_data frame = Inr frame' \<longrightarrow>
          frame' = frame \<and> (\<forall>r\<in>set (frame_rows frame). row_amount r \<noteq> NaN))"
  using validate_amounts_passes[of frame] validate_amounts_fails[of frame]
    validate_csv_data_fails_on_nan[of frame] validate_csv_data_amounts[of frame]
  by (intro conjI allI impI) auto

text \<open>
  C5 as stated fails: a batch with the amounts \<open>-5\<close> and infinity is accepted.
\<close>

theorem amount_validation_counterexample:
  "validate_csv_data negative_amount_df = Inr negative_amount_df
   \<and> map row_amount (frame_rows negative_amount_df) = [Finite (- 5), PosInf]"
  by (simp add: validate_csv_data_def validate_csv_structure_def validate_transaction_ids_def
      validate_amounts_def validate_timestamps_def invalid_positions_def negative_amount_df_def
      csv_row_def EXPECTED_COLUMNS_def Let_def upt_rec)

theorem amount_validation_witness:
  "(\<exists>r\<in>set (frame_rows unparsed_amount_df). row_amount r = NaN)
   \<and> validate_amounts unparsed_amount_df = Inl (InvalidAmounts [1] False)
   \<and> (\<exists>err. validate_csv_data unparsed_amount_df = Inl err)"
proof -
  have nan: "\<exists>r\<in>set (frame_rows unparsed_amount_df). row_amount r = NaN"
    by (simp add: unparsed_amount_df_def csv_row_def)
  have "\<exists>err. validate_csv_data unparsed_amount_df = Inl err"
    using amount_validation[of unparsed_amount_df, THEN conjunct2, THEN conjunct2, THEN conjunct1] nan
    by (rule mp)
  moreover have "validate_amounts unparsed_amount_df = Inl (InvalidAmounts [1] False)"
    by (simp add: validate_amounts_def invalid_positions_def unparsed_amount_df_def csv_row_def
        Let_def upt_rec)
  ultimately show ?thesis using nan by (intro conjI)
qed

section \<open>Properties of the shell-chain detector\<close>

lemma path_edges_snoc:
  "path \<noteq> [] \<Longrightarrow> path_edges (path @ [n]) = path_edges path @ [(last path, n)]"
proof (induction path)
  case Nil then show ?case by simp
next
  case (Cons a path)
  then show ?case by (cases path) (auto simp: path_edges_def)
qed

lemma sorted_le_last:
  fixes xs :: "int list"
  shows "sorted xs \<Longrightarrow> x \<in> set xs \<Longrightarrow> x \<le> last xs"
  by (induction xs) auto

lemma explore_ok:
  assumes "item_ok e item" and "child \<in> set (explore e max_degree item)"
  shows "item_ok e child"
proof -
  obtain current path last_ts where item: "item = (current, path, last_ts)" by (cases item)
  from assms(2) obtain neighbor where n: "neighbor \<notin> set path"
      "\<not> (last_ts \<noteq> None \<and> edge_ts e (current, neighbor) < the last_ts)"
      "edge_timestamps e (current, neighbor) \<noteq> []"
      "child = (neighbor, path @ [neighbor], Some (edge_ts e (current, neighbor)))"
    unfolding item explore_def by (auto split: if_splits)
  have p: "path \<noteq> []" "last path = current" "distinct path"
      "sorted (map (edge_ts e) (path_edges path))"
      "last_ts = (if path_edges path = [] then None else Some (edge_ts e (last (path_edges path))))"
      "list_all (\<lambda>edge. edge_timestamps e edge \<noteq> []) (path_edges path)"
    using assms(1) by (simp_all add: item item_ok_def)
  have edges: "path_edges (path @ [neighbor]) = path_edges path @ [(current, neighbor)]"
    using p(1,2) by (simp add: path_edges_snoc)
  have "sorted (map (edge_ts e) (path_edges path @ [(current, neighbor)]))"
  proof (cases "path_edges path = []")
    case True then show ?thesis by simp
  next
    case False
    then have le: "edge_ts e (last (path_edges path)) \<le> edge_ts e (current, neighbor)"
      using n(2) p(5) by simp
    have "\<forall>x\<in>set (map (edge_ts e) (path_edges path)). x \<le> edge_ts e (last (path_edges path))"
    proof -
      have "last (map (edge_ts e) (path_edges path)) = edge_ts e (last (path_edges path))"
        using False by (simp add: last_map)
      moreover have "\<forall>x\<in>set (map (edge_ts e) (path_edges path)). x \<le> last (map (edge_ts e) (path_edges path))"
        using p(4) sorted_le_last by blast
      ultimately show ?thesis by simp
    qed
    then show ?thesis using p(4) le by (auto simp: sorted_append)
  qed
  then show ?thesis
    unfolding n(4) item_ok_def using n(1,3) p(3,6) edges by simp
qed


lemma chain_valid_iff:
  "chain_valid e max_degree path =
     list_all (\<lambda>n. int (total_degree (graph e) n) \<le> max_degree) (interior path)"
  by (simp add: chain_valid_def not_less)

lemma bfs_accept:
  "int (length path) \<ge> min_length \<and> chain_valid e max_degree path \<Longrightarrow>
   bfs e min_length max_degree ((current, path, last_ts) # queue) found
     = bfs e min_length max_degree queue (found @ [path])"
  by (subst bfs.simps(2)) (simp only: if_True if_False simp_thms)

lemma bfs_drop:
  "\<not> (int (length path) \<ge> min_length \<and> chain_valid e max_degree path) \<Longrightarrow>
   int (length path) \<ge> min_length + 2 \<Longrightarrow>
   bfs e min_length max_degree ((current, path, last_ts) # queue) found
     = bfs e min_length max_degree queue found"
  by (subst bfs.simps(2)) (simp only: if_True if_False simp_thms)

lemma bfs_extend:
  "\<not> (int (length path) \<ge> min_length \<and> chain_valid e max_degree path) \<Longrightarrow>
   \<not> int (length path) \<ge> min_length + 2 \<Longrightarrow>
   bfs e min_length max_degree ((current, path, last_ts) # queue) found
     = bfs e min_length max_degree (queue @ explore e max_degree (current, path, last_ts)) found"
  by (subst bfs.simps(2)) (simp only: if_True if_False simp_thms)

lemma bfs_good:
  assumes "\<forall>item\<in>set queue. item_ok e item"
    and "\<forall>p\<in>set found. good_chain e min_length max_degree p"
  shows "\<forall>p\<in>set (bfs e min_length max_degree queue found). good_chain e min_length max_degree p"
  using assms
proof (induction e min_length max_degree queue found rule: bfs.induct)
  case (1 e min_length max_degree found)
  then show ?case by (simp only: bfs.simps(1))
next
  case (2 e min_length max_degree current path last_ts queue found)
  have item: "item_ok e (current, path, last_ts)" and rest: "\<forall>item\<in>set queue. item_ok e item"
    using "2.prems"(1) by simp_all
  show ?case
  proof (cases "int (length path) \<ge> min_length \<and> chain_valid e max_degree path")
    case True
    then have "good_chain e min_length max_degree path"
      using item by (simp add: good_chain_def item_ok_def chain_valid_iff)
    then have good: "\<forall>p\<in>set (found @ [path]). good_chain e min_length max_degree p"
      using "2.prems"(2) by simp
    show ?thesis
      unfolding bfs_accept[OF True] by (rule "2.IH"(1)[OF True rest good])
  next
    case False
    show ?thesis
    proof (cases "int (length path) \<ge> min_length + 2")
      case True
      show ?thesis
        unfolding bfs_drop[OF False True] by (rule "2.IH"(2)[OF False True rest "2.prems"(2)])
    next
      case long: False
      have ok: "\<forall>item\<in>set (queue @ explore e max_degree (current, path, last_ts)). item_ok e item"
        using rest explore_ok[OF item] by auto
      show ?thesis
        unfolding bfs_extend[OF False long]
        by (rule "2.IH"(3)[OF False long ok "2.prems"(2)])
    qed
  qed
qed

lemma fold_bfs_good:
  assumes "\<forall>p\<in>set acc. good_chain e min_length max_degree p"
  shows "\<forall>p\<in>set (fold (\<lambda>start_node found.
             if out_degree (graph e) start_node = 0 then found
             else bfs e min_length max_degree [(start_node, [start_node], None)] found)
       ns acc). good_chain e min_length max_degree p"
  using assms
proof (induction ns arbitrary: acc)
  case Nil
  then show ?case by (simp only: fold_simps)
next
  case (Cons s ns)
  have start: "\<forall>item\<in>set [(s, [s], None)]. item_ok e item"
    by (simp add: item_ok_def path_edges_def)
  have after: "\<forall>p\<in>set (if out_degree (graph e) s = 0 then acc
        else bfs e min_length max_degree [(s, [s], None)] acc). good_chain e min_length max_degree p"
  proof (cases "out_degree (graph e) s = 0")
    case True
    then show ?thesis using Cons.prems by (simp only: if_True if_False simp_thms)
  next
    case False
    then show ?thesis using bfs_good[OF start Cons.prems] by (simp only: if_True if_False simp_thms)
  qed
  show ?case
    unfolding fold_simps by (rule Cons.IH[OF after])
qed

lemma all_detected_chains_good:
  "\<forall>p\<in>set (all_detected_chains e min_length max_degree). good_chain e min_length max_degree p"
  unfolding all_detected_chains_def by (rule fold_bfs_good) simp

text \<open>
  Claim C8. Every path that \<^verbatim>\<open>detect_shell_chains\<close> returns has pairwise distinct
  accounts and at least \<open>min_length\<close> of them, every node strictly between its two ends
  has total degree at most \<open>max_degree\<close>, every consecutive pair is an edge with a
  transaction, and the earliest timestamps of the consecutive edges never decrease
  along the path.
\<close>

theorem shell_chain_postcondition:
  "\<forall>path\<in>set (fst (detect_shell_chains e min_length max_degree)).
     distinct path
     \<and> min_length \<le> int (length path)
     \<and> (\<forall>n\<in>set (interior path). int (total_degree (graph e) n) \<le> max_degree)
     \<and> (\<forall>edge\<in>set (path_edges path). edge_timestamps e edge \<noteq> [])
     \<and> sorted (map (edge_ts e) (path_edges path))"
proof
  fix path assume "path \<in> set (fst (detect_shell_chains e min_length max_degree))"
  then have "path \<in> set (all_detected_chains e min_length max_degree)"
    by (simp add: detect_shell_chains_def Let_def)
  then have "good_chain e min_length max_degree path"
    using all_detected_chains_good by blast
  then show "distinct path
     \<and> min_length \<le> int (length path)
     \<and> (\<forall>n\<in>set (interior path). int (total_degree (graph e) n) \<le> max_degree)
     \<and> (\<forall>edge\<in>set (path_edges path). edge_timestamps e edge \<noteq> [])
     \<and> sorted (map (edge_ts e) (path_edges path))"
    by (simp add: good_chain_def list_all_iff)
qed

lemma shell_graph:
  "graph shell_engine =
     \<lparr>nodes = [''X'', ''SH1'', ''SH2'', ''SH3'', ''Y''],
      edges = [(''X'', ''SH1''), (''SH1'', ''SH2''), (''SH2'', ''SH3''), (''SH3'', ''Y'')]\<rparr>"
  by (simp add: shell_engine_def graph_of_def shell_df_def tx_def)

lemma shell_edge_ts:
  "edge_timestamps shell_engine (''X'', ''SH1'') = [0]"
  "edge_timestamps shell_engine (''SH1'', ''SH2'') = [3600]"
  "edge_timestamps shell_engine (''SH2'', ''SH3'') = [7200]"
  "edge_timestamps shell_engine (''SH3'', ''Y'') = [10800]"
  by (simp_all add: edge_timestamps_def shell_engine_def shell_df_def tx_def)

lemma shell_found:
  "all_detected_chains shell_engine 3 3 =
     [[''X'', ''SH1'', ''SH2''], [''SH1'', ''SH2'', ''SH3''], [''SH2'', ''SH3'', ''Y'']]"
  by (simp add: all_detected_chains_def shell_graph out_degree_def total_degree_def in_degree_def
      successors_def explore_def chain_valid_def interior_def edge_ts_def shell_edge_ts)


lemma shell_chains:
  "fst (detect_shell_chains shell_engine 3 3) =
     [[''X'', ''SH1'', ''SH2''], [''SH1'', ''SH2'', ''SH3''], [''SH2'', ''SH3'', ''Y'']]"
  by (simp add: detect_shell_chains_def Let_def shell_found is_sublist_def)

theorem shell_chain_postcondition_witness:
  "[''X'', ''SH1'', ''SH2''] \<in> set (fst (detect_shell_chains shell_engine 3 3))
   \<and> distinct [''X'', ''SH1'', ''SH2'']
   \<and> 3 \<le> int (length [''X'', ''SH1'', ''SH2''])
   \<and> int (total_degree (graph shell_engine) ''SH1'') \<le> 3
   \<and> map (edge_ts shell_engine) (path_edges [''X'', ''SH1'', ''SH2'']) = [0, 3600]
   \<and> sorted (map (edge_ts shell_engine) (path_edges [''X'', ''SH1'', ''SH2'']))"
proof -
  have mem: "[''X'', ''SH1'', ''SH2''] \<in> set (fst (detect_shell_chains shell_engine 3 3))"
    by (simp add: shell_chains)
  note post = shell_chain_postcondition [of shell_engine 3 3, THEN bspec, OF mem]
  have deg: "int (total_degree (graph shell_engine) ''SH1'') \<le> 3"
    using post by (simp add: interior_def)
  have ts: "map (edge_ts shell_engine) (path_edges [''X'', ''SH1'', ''SH2'']) = [0, 3600]"
    by (simp add: path_edges_def edge_ts_def shell_edge_ts)
  show ?thesis using mem post deg ts by (intro conjI) simp_all
qed

section \<open>Score bounds\<close>

subsection \<open>Suspicion scores\<close>

lemma upd_nonneg:
  assumes "\<And>s. 0 \<le> score s \<Longrightarrow> 0 \<le> score (f s)" and "nonneg_scores d"
  shows "nonneg_scores (upd k f d)"
  using assms(2)
proof (induction d)
  case Nil
  then show ?case using assms(1)[of default_entry] by (simp add: nonneg_scores_def default_entry_def)
next
  case (Cons kv d)
  obtain k' v where kv: "kv = (k', v)" by (cases kv)
  show ?case using Cons assms(1)[of v] by (auto simp: kv nonneg_scores_def)
qed

lemma fold_upd_nonneg:
  assumes "\<And>x s. 0 \<le> score s \<Longrightarrow> 0 \<le> score (f x s)" and "nonneg_scores d"
  shows "nonneg_scores (fold (\<lambda>x. upd (key x) (f x)) xs d)"
  using assms(2) by (induction xs arbitrary: d) (auto intro: upd_nonneg assms(1))

lemma add_contribution_nonneg:
  "0 \<le> pts \<Longrightarrow> 0 \<le> score s \<Longrightarrow> 0 \<le> score (add_contribution pts f p s)"
  by (simp add: add_contribution_def)

lemma score_cycles_nonneg: "nonneg_scores d \<Longrightarrow> nonneg_scores (score_cycles cs d)"
  unfolding score_cycles_def
proof (induction cs arbitrary: d)
  case Nil then show ?case by simp
next
  case (Cons c cs)
  have "nonneg_scores (fold (\<lambda>acc. upd acc (add_contribution 40 ''cycle_member'' ''cycle'')) c d)"
    using Cons.prems
      fold_upd_nonneg[of "\<lambda>_. add_contribution 40 ''cycle_member'' ''cycle''" d "\<lambda>x. x" c]
    by (simp add: add_contribution_nonneg)
  then show ?case using Cons.IH by simp
qed

lemma score_chains_nonneg: "nonneg_scores d \<Longrightarrow> nonneg_scores (score_chains cs d)"
  unfolding score_chains_def
proof (induction cs arbitrary: d)
  case Nil then show ?case by simp
next
  case (Cons c cs)
  have "nonneg_scores (fold (\<lambda>acc. upd acc (add_contribution 20 ''shell_intermediate'' ''shell_chain''))
          (interior c) d)"
    using Cons.prems
      fold_upd_nonneg[of "\<lambda>_. add_contribution 20 ''shell_intermediate'' ''shell_chain''" d
        "\<lambda>x. x" "interior c"]
    by (simp add: add_contribution_nonneg)
  then show ?case using Cons.IH by simp
qed

lemma base_scores_nonneg: "nonneg_scores (base_scores e)"
proof -
  have 0: "nonneg_scores []" by (simp add: nonneg_scores_def)
  have 1: "nonneg_scores (score_cycles (detected_cycles e) [])"
    using 0 by (rule score_cycles_nonneg)
  have 2: "nonneg_scores (score_fanin (detected_fanin e) (score_cycles (detected_cycles e) []))"
    unfolding score_fanin_def
    using 1 fold_upd_nonneg[of "\<lambda>_. add_contribution 30 ''fan_in_hub'' ''fan_in''" _ receiver]
    by (simp add: add_contribution_nonneg)
  have 3: "nonneg_scores (score_fanout (detected_fanout e)
      (score_fanin (detected_fanin e) (score_cycles (detected_cycles e) [])))"
    unfolding score_fanout_def
    using 2 fold_upd_nonneg[of "\<lambda>_. add_contribution 30 ''fan_out_hub'' ''fan_out''" _ sender]
    by (simp add: add_contribution_nonneg)
  show ?thesis unfolding base_scores_def using 3 by (rule score_chains_nonneg)
qed

lemma velocity_multiplier_nonneg: "0 \<le> velocity_multiplier r"
  by (simp add: velocity_multiplier_def)

lemma apply_velocity_nonneg: "nonneg_scores sc \<Longrightarrow> nonneg_scores (apply_velocity e a sc)"
  by (auto simp: apply_velocity_def Let_def velocity_multiplier_nonneg intro!: upd_nonneg)

lemma apply_whitelist_nonneg: "nonneg_scores sc \<Longrightarrow> nonneg_scores (apply_whitelist e a sc)"
  by (auto simp: apply_whitelist_def intro!: upd_nonneg)

lemma apply_spread_penalty_nonneg:
  "nonneg_scores sc \<Longrightarrow> nonneg_scores (apply_spread_penalty e a sc)"
  by (auto simp: apply_spread_penalty_def Let_def intro!: upd_nonneg)

lemma penalty_scores_nonneg: "nonneg_scores (penalty_scores e)"
  unfolding penalty_scores_def whitelist_scores_def velocity_scores_def
  by (intro fold_preserves[where P=nonneg_scores] apply_velocity_nonneg apply_whitelist_nonneg
      apply_spread_penalty_nonneg base_scores_nonneg)

lemma suspicion_score_range:
  assumes "(a, s) \<in> set (fst (calculate_suspicion_scores e))"
  shows "0 \<le> score s \<and> score s \<le> 100"
proof -
  from assms obtain s' where s': "(a, s') \<in> set (penalty_scores e)" "s = cap_entry s'"
    by (auto simp: calculate_suspicion_scores_def Let_def)
  then have "0 \<le> score s'" using penalty_scores_nonneg[of e] by (auto simp: nonneg_scores_def)
  then show ?thesis unfolding s'(2) by (simp add: cap_entry_def Let_def)
qed

lemma py_round_bounds:
  assumes "0 \<le> x" and "x \<le> 100"
  shows "0 \<le> py_round x nd \<and> py_round x nd \<le> 100"
proof -
  let ?y = "x * 10 ^ nd"
  let ?f = "\<lfloor>?y\<rfloor>"
  let ?r = "if ?y - of_int ?f < 1 / 2 then ?f else if ?y - of_int ?f > 1 / 2 then ?f + 1
            else if even ?f then ?f else ?f + 1"
  have y0: "0 \<le> ?y" using assms(1) by simp
  have y1: "?y \<le> 100 * 10 ^ nd" using assms(2) by simp
  have f0: "0 \<le> ?f" using y0 by simp
  have f1: "?f \<le> 100 * 10 ^ nd"
  proof -
    have "?y \<le> of_int (100 * 10 ^ nd)" using y1 by simp
    then have "?f \<le> \<lfloor>(of_int (100 * 10 ^ nd) :: real)\<rfloor>" by (rule floor_mono)
    then show ?thesis by (simp only: floor_of_int)
  qed
  have r0: "0 \<le> ?r" using f0 by auto
  have r1: "?r \<le> 100 * 10 ^ nd"
  proof (cases "?f = 100 * 10 ^ nd")
    case True
    then have "of_int ?f = (100 * 10 ^ nd :: real)" by simp
    then have "?y - of_int ?f \<le> 0" using y1 by simp
    then have "?y - of_int ?f < 1 / 2" by linarith
    then have req: "?r = ?f" by (simp only: if_True)
    show ?thesis unfolding req by (rule f1)
  next
    case False
    then have "?f + 1 \<le> 100 * 10 ^ nd" using f1 by linarith
    then show ?thesis using f1 by auto
  qed
  have eq: "py_round x nd = of_int ?r / 10 ^ nd"
    by (simp add: py_round_def Let_def)
  have "0 \<le> (of_int ?r :: real)" using r0 by (simp only: of_int_0_le_iff)
  then have lo: "0 \<le> py_round x nd" unfolding eq by simp
  have "(of_int ?r :: real) \<le> of_int (100 * 10 ^ nd)" using r1 by (simp only: of_int_le_iff)
  then have "(of_int ?r :: real) \<le> 100 * 10 ^ nd" by simp
  then have hi: "py_round x nd \<le> 100" unfolding eq by (simp add: divide_le_eq)
  show ?thesis using lo hi by simp
qed

subsection \<open>Factor scores of the risk engine\<close>

lemma centrality_bounds:
  assumes "0 \<le> degree_centrality cm n" "0 \<le> betweenness cm n" "0 \<le> pagerank cm n"
  shows "0 \<le> calculate_degree_centrality_score cm n \<and> calculate_degree_centrality_score cm n \<le> 100"
  using assms by (simp add: calculate_degree_centrality_score_def Let_def)

lemma min_100_bounds: "0 \<le> x \<Longrightarrow> 0 \<le> min x 100 \<and> min x (100::real) \<le> 100"
  by simp

lemma if_nonneg: "0 \<le> a \<Longrightarrow> 0 \<le> b \<Longrightarrow> 0 \<le> (if c then a else (b::real))"
  by simp

lemma if_range:
  "0 \<le> a \<and> a \<le> 100 \<Longrightarrow> 0 \<le> b \<and> b \<le> 100
    \<Longrightarrow> 0 \<le> (if c then a else (b::real)) \<and> (if c then a else b) \<le> 100"
  by simp

lemma case_option_nonneg:
  "0 \<le> a \<Longrightarrow> (\<And>x. 0 \<le> f x) \<Longrightarrow> 0 \<le> (case opt of None \<Rightarrow> a | Some x \<Rightarrow> (f x :: real))"
  by (cases opt) simp_all

lemma velocity_bounds:
  "0 \<le> calculate_transaction_velocity_score ri a \<and> calculate_transaction_velocity_score ri a \<le> 100"
  unfolding calculate_transaction_velocity_score_def Let_def
  by (intro if_range min_100_bounds add_nonneg_nonneg if_nonneg) simp_all

lemma cycle_bounds:
  "0 \<le> calculate_cycle_involvement_score ri a \<and> calculate_cycle_involvement_score ri a \<le> 100"
  unfolding calculate_cycle_involvement_score_def Let_def
  by (intro if_range min_100_bounds add_nonneg_nonneg if_nonneg) simp_all

lemma volume_bounds:
  "0 \<le> calculate_volume_anomaly_score ri a \<and> calculate_volume_anomaly_score ri a \<le> 100"
  unfolding calculate_volume_anomaly_score_def Let_def
  by (intro if_range min_100_bounds add_nonneg_nonneg if_nonneg case_option_nonneg) simp_all

subsection \<open>Ring density\<close>

lemma set_max_in_range:
  assumes "set_max k v d = Inr d'" and "in_range d" and "v \<le> 100"
  shows "in_range d' \<and> map fst d' = map fst d"
  using assms(1,2)
proof (induction d arbitrary: d')
  case Nil then show ?case by simp
next
  case (Cons kx d)
  obtain k' x where kx: "kx = (k', x)" by (cases kx)
  show ?case
  proof (cases "k = k'")
    case True
    then show ?thesis using Cons.prems assms(3) by (auto simp: kx in_range_def)
  next
    case False
    then obtain d'' where d'': "set_max k v d = Inr d''" "d' = (k', x) # d''"
      using Cons.prems(1) by (auto simp: kx split: sum.splits)
    have "in_range d" using Cons.prems(2) by (simp add: in_range_def)
    then have "in_range d'' \<and> map fst d'' = map fst d" using d''(1) by (rule Cons.IH[rotated])
    then show ?thesis using Cons.prems(2) d''(2) by (simp add: kx in_range_def)
  qed
qed

lemma set_max_defined:
  "k \<in> fst ` set d \<Longrightarrow> \<exists>d'. set_max k v d = Inr d'"
proof (induction d)
  case Nil then show ?case by simp
next
  case (Cons kx d)
  obtain k' x where kx: "kx = (k', x)" by (cases kx)
  show ?case
  proof (cases "k = k'")
    case True then show ?thesis by (simp add: kx)
  next
    case False
    then have "k \<in> fst ` set d" using Cons.prems by (auto simp: kx)
    then obtain d' where "set_max k v d = Inr d'" using Cons.IH by blast
    then show ?thesis using False by (simp add: kx)
  qed
qed

lemma fold_err_invariant:
  assumes "\<And>x s s'. x \<in> set xs \<Longrightarrow> P s \<Longrightarrow> f x s = Inr s' \<Longrightarrow> P s'"
    and "P s" and "fold_err f xs s = Inr s'"
  shows "P s'"
  using assms
proof (induction xs arbitrary: s)
  case Nil then show ?case by simp
next
  case (Cons x xs)
  from Cons.prems(3) obtain s1 where s1: "f x s = Inr s1" "fold_err f xs s1 = Inr s'"
    by (auto split: sum.splits)
  have p1: "P s1" using Cons.prems(1)[of x s s1] Cons.prems(2) s1(1) by simp
  show ?case
  proof (rule Cons.IH[OF _ p1 s1(2)])
    fix y t t' assume "y \<in> set xs" "P t" "f y t = Inr t'"
    then show "P t'" using Cons.prems(1)[of y t t'] by simp
  qed
qed

lemma fold_err_defined:
  assumes "\<And>x s. x \<in> set xs \<Longrightarrow> P s \<Longrightarrow> \<exists>s'. f x s = Inr s' \<and> P s'" and "P s"
  shows "\<exists>s'. fold_err f xs s = Inr s' \<and> P s'"
  using assms
proof (induction xs arbitrary: s)
  case Nil then show ?case by simp
next
  case (Cons x xs)
  from Cons.prems(1)[of x s] Cons.prems(2) obtain s1 where s1: "f x s = Inr s1" "P s1" by auto
  have "\<exists>s'. fold_err f xs s1 = Inr s' \<and> P s'"
  proof (rule Cons.IH[OF _ s1(2)])
    fix y t assume "y \<in> set xs" "P t"
    then show "\<exists>s'. f y t = Inr s' \<and> P s'" using Cons.prems(1)[of y t] by simp
  qed
  then show ?case using s1(1) by simp
qed

lemma ring_density_step_inv:
  assumes "ring_density_step ri r sc = Inr sc'" and "density_inv ri sc"
  shows "density_inv ri sc'"
proof -
  from assms(1) obtain accounts where acc: "member_accounts r = Some accounts"
    by (auto simp: ring_density_step_def split: option.splits)
  let ?ms = "remdups accounts"
  show ?thesis
  proof (cases "length ?ms < 2")
    case True
    then show ?thesis using assms by (simp add: ring_density_step_def acc Let_def)
  next
    case False
    then have f: "fold_err (\<lambda>member. set_max member (min (member_total_score ri r ?ms member) 100))
                     ?ms sc = Inr sc'"
      using assms(1) by (simp add: ring_density_step_def acc Let_def)
    show ?thesis
    proof (rule fold_err_invariant[where P = "density_inv ri", OF _ assms(2) f])
      fix x s s'
      assume "density_inv ri s" "set_max x (min (member_total_score ri r ?ms x) 100) s = Inr s'"
      then show "density_inv ri s'"
        using set_max_in_range[of x "min (member_total_score ri r ?ms x) 100" s s']
        by (simp add: density_inv_def)
    qed
  qed
qed

lemma ring_density_step_defined:
  assumes "density_inv ri sc" and "member_accounts r = Some accounts"
    and "set accounts \<subseteq> set (nodes (rk_graph ri))"
  shows "\<exists>sc'. ring_density_step ri r sc = Inr sc' \<and> density_inv ri sc'"
proof (cases "length (remdups accounts) < 2")
  case True
  then show ?thesis using assms by (simp add: ring_density_step_def Let_def)
next
  case False
  let ?ms = "remdups accounts"
  have "\<exists>s'. fold_err (\<lambda>member. set_max member (min (member_total_score ri r ?ms member) 100))
                     ?ms sc = Inr s' \<and> density_inv ri s'"
  proof (rule fold_err_defined[where P = "density_inv ri", OF _ assms(1)])
    fix x s assume x: "x \<in> set ?ms" and s: "density_inv ri s"
    then have "x \<in> fst ` set s" using assms(3) by (auto simp: density_inv_def simp flip: set_map)
    then obtain s' where s': "set_max x (min (member_total_score ri r ?ms x) 100) s = Inr s'"
      using set_max_defined by blast
    then have "density_inv ri s'"
      using s set_max_in_range[of x "min (member_total_score ri r ?ms x) 100" s s']
      by (simp add: density_inv_def)
    then show "\<exists>s'. set_max x (min (member_total_score ri r ?ms x) 100) s = Inr s' \<and> density_inv ri s'"
      using s' by blast
  qed
  then show ?thesis using False assms(2) by (simp add: ring_density_step_def Let_def)
qed

lemma density_inv_init: "density_inv ri (map (\<lambda>node. (node, 0)) (nodes (rk_graph ri)))"
  by (simp add: density_inv_def in_range_def comp_def)

lemma ring_density_in_range:
  assumes "calculate_ring_density_score ri = Inr d"
  shows "in_range d"
proof -
  have f: "fold_err (ring_density_step ri) (rk_fraud_rings ri)
      (map (\<lambda>node. (node, 0)) (nodes (rk_graph ri))) = Inr d"
    using assms by (simp add: calculate_ring_density_score_def)
  have "density_inv ri d"
  proof (rule fold_err_invariant[where P = "density_inv ri", OF _ density_inv_init f])
    fix x s s' assume "density_inv ri s" "ring_density_step ri x s = Inr s'"
    then show "density_inv ri s'" by (rule ring_density_step_inv[rotated])
  qed
  then show ?thesis by (simp add: density_inv_def)
qed

lemma ring_density_defined:
  assumes "\<forall>r\<in>set (rk_fraud_rings ri).
      \<exists>accounts. member_accounts r = Some accounts \<and> set accounts \<subseteq> set (nodes (rk_graph ri))"
  shows "\<exists>d. calculate_ring_density_score ri = Inr d"
proof -
  have "\<exists>d. fold_err (ring_density_step ri) (rk_fraud_rings ri)
          (map (\<lambda>node. (node, 0)) (nodes (rk_graph ri))) = Inr d \<and> density_inv ri d"
  proof (rule fold_err_defined[where P = "density_inv ri", OF _ density_inv_init])
    fix r s assume "r \<in> set (rk_fraud_rings ri)" "density_inv ri s"
    then show "\<exists>s'. ring_density_step ri r s = Inr s' \<and> density_inv ri s'"
      using assms ring_density_step_defined by blast
  qed
  then show ?thesis unfolding calculate_ring_density_score_def by blast
qed

lemma score_get_in_range:
  "in_range d \<Longrightarrow> 0 \<le> score_get d a \<and> score_get d a \<le> 100"
  by (auto simp: score_get_def in_range_def split: option.splits dest: map_of_SomeD)

lemma risk_result_bounds:
  assumes "0 \<le> degree_centrality cm a" "0 \<le> betweenness cm a" "0 \<le> pagerank cm a"
    and "in_range d"
  shows "0 \<le> ri_risk_score (risk_result ri cm d a) \<and> ri_risk_score (risk_result ri cm d a) \<le> 100"
proof -
  let ?c = "calculate_degree_centrality_score cm a"
  let ?v = "calculate_transaction_velocity_score ri a"
  let ?y = "calculate_cycle_involvement_score ri a"
  let ?r = "score_get d a"
  let ?m = "calculate_volume_anomaly_score ri a"
  let ?final = "?c * (20 / 100) + ?v * (20 / 100) + ?y * (25 / 100) + ?r * (20 / 100) + ?m * (15 / 100)"
  have b: "0 \<le> ?c" "?c \<le> 100" "0 \<le> ?v" "?v \<le> 100" "0 \<le> ?y" "?y \<le> 100"
      "0 \<le> ?r" "?r \<le> 100" "0 \<le> ?m" "?m \<le> 100"
    using centrality_bounds[OF assms(1-3)] velocity_bounds[of ri a] cycle_bounds[of ri a]
      score_get_in_range[OF assms(4), of a] volume_bounds[of ri a]
    by simp_all
  have f: "0 \<le> ?final" "?final \<le> 100" using b by linarith+
  have eq: "ri_risk_score (risk_result ri cm d a)
      = py_round (if a \<in> set (rk_whitelisted_accounts ri) then 0 else ?final) 2"
    by (simp add: risk_result_def Let_def)
  show ?thesis unfolding eq using f by (intro py_round_bounds) auto
qed

subsection \<open>Comprehensive risk scores\<close>

lemma comprehensive_scores_bounds:
  assumes "\<forall>n. 0 \<le> degree_centrality cm n \<and> 0 \<le> betweenness cm n \<and> 0 \<le> pagerank cm n"
    and "calculate_comprehensive_risk_scores ri cm = Inr res" and "r \<in> set res"
  shows "0 \<le> ri_risk_score r \<and> ri_risk_score r \<le> 100"
proof -
  from assms(2) obtain d where d: "calculate_ring_density_score ri = Inr d"
    and res: "res = map (risk_result ri cm d) (nodes (rk_graph ri))"
    by (auto simp: calculate_comprehensive_risk_scores_def split: sum.splits)
  from assms(3) obtain a where r: "r = risk_result ri cm d a" unfolding res by auto
  have "in_range d" using d by (rule ring_density_in_range)
  then show ?thesis unfolding r using assms(1) by (intro risk_result_bounds) auto
qed

lemma comprehensive_scores_defined:
  assumes "\<forall>r\<in>set (rk_fraud_rings ri).
      \<exists>accounts. member_accounts r = Some accounts \<and> set accounts \<subseteq> set (nodes (rk_graph ri))"
  shows "\<exists>res. calculate_comprehensive_risk_scores ri cm = Inr res
             \<and> map ri_account_id res = nodes (rk_graph ri)"
proof -
  from ring_density_defined[OF assms] obtain d where "calculate_ring_density_score ri = Inr d"
    by blast
  then show ?thesis
    by (simp add: calculate_comprehensive_risk_scores_def comp_def risk_result_def Let_def)
qed

lemma response_score_range:
  assumes "x \<in> set (resp_suspicious_accounts (canonical_response e))"
  shows "0 \<le> suspicion_score x \<and> suspicion_score x \<le> 100"
proof -
  from assms obtain a s where
    as: "(a, s) \<in> set (fst (calculate_suspicion_scores e))"
    and x: "suspicion_score x = py_round (score s) 1"
    unfolding canonical_suspicious_accounts by (auto simp: build_suspicious_accounts_def)
  from suspicion_score_range[OF as] show ?thesis unfolding x by (intro py_round_bounds) auto
qed

text \<open>
  Claim C7. Every suspicion score the scorer produces lies between 0 and 100, and so
  does its rounded value in the response. Every comprehensive risk score the risk engine
  returns lies between 0 and 100, given that the centralities the graph library hands
  over are not negative; and the engine does return, with one entry for each node, when
  every ring lists its members and they are nodes of the graph.
\<close>

theorem score_bounds:
  assumes "\<forall>n. 0 \<le> degree_centrality cm n \<and> 0 \<le> betweenness cm n \<and> 0 \<le> pagerank cm n"
  shows "(\<forall>(a, s)\<in>set (fst (calculate_suspicion_scores e)). 0 \<le> score s \<and> score s \<le> 100)
       \<and> (\<forall>x\<in>set (resp_suspicious_accounts (canonical_response e)).
             0 \<le> suspicion_score x \<and> suspicion_score x \<le> 100)
       \<and> (\<forall>res. calculate_comprehensive_risk_scores ri cm = Inr res
             \<longrightarrow> (\<forall>r\<in>set res. 0 \<le> ri_risk_score r \<and> ri_risk_score r \<le> 100))
       \<and> ((\<forall>r\<in>set (rk_fraud_rings ri). \<exists>accounts.
               member_accounts r = Some accounts \<and> set accounts \<subseteq> set (nodes (rk_graph ri)))
            \<longrightarrow> (\<exists>res. calculate_comprehensive_risk_scores ri cm = Inr res
                       \<and> map ri_account_id res = nodes (rk_graph ri)))"
proof (intro conjI)
  show "\<forall>(a, s)\<in>set (fst (calculate_suspicion_scores e)). 0 \<le> score s \<and> score s \<le> 100"
    using suspicion_score_range by blast
  show "\<forall>x\<in>set (resp_suspicious_accounts (canonical_response e)).
             0 \<le> suspicion_score x \<and> suspicion_score x \<le> 100"
    using response_score_range by blast
  show "\<forall>res. calculate_comprehensive_risk_scores ri cm = Inr res
             \<longrightarrow> (\<forall>r\<in>set res. 0 \<le> ri_risk_score r \<and> ri_risk_score r \<le> 100)"
    using comprehensive_scores_bounds[OF assms] by blast
  show "(\<forall>r\<in>set (rk_fraud_rings ri). \<exists>accounts.
               member_accounts r = Some accounts \<and> set accounts \<subseteq> set (nodes (rk_graph ri)))
            \<longrightarrow> (\<exists>res. calculate_comprehensive_risk_scores ri cm = Inr res
                       \<and> map ri_account_id res = nodes (rk_graph ri))"
    using comprehensive_scores_defined by blast
qed

subsection \<open>The risk engine on the cycle example\<close>

lemma cycle_risk_cycles:
  "all_cycles_of cycle_risk_engine = [[''A'', ''B'', ''C'']]"
  by (simp add: all_cycles_of_def cycle_risk_engine_def simple_cycles_def graph_of_def cycle_df_def
      tx_def candidate_def in_degree_def out_degree_def successors_def timed_def upt_rec)

lemma cycle_risk_density:
  "calculate_ring_density_score cycle_risk_engine = Inr [(''A'', 63), (''B'', 63), (''C'', 63)]"
  by (simp add: calculate_ring_density_score_def ring_density_step_def member_total_score_def
      cycle_risk_engine_def graph_of_def cycle_df_def tx_def dict_get_def Let_def)

lemma cycle_risk_velocity:
  "map (calculate_transaction_velocity_score cycle_risk_engine) [''A'', ''B'', ''C''] = [40, 55, 55]"
  by (simp add: calculate_transaction_velocity_score_def rk_account_txns_def time_gaps_def
      cycle_risk_engine_def cycle_df_def tx_def Let_def)

lemma cycle_risk_involvement:
  "map (calculate_cycle_involvement_score cycle_risk_engine) [''A'', ''B'', ''C''] = [50, 50, 50]"
  by (simp add: calculate_cycle_involvement_score_def cycle_risk_cycles np_mean_def Let_def)

lemma cycle_risk_stats:
  "np_mean [1000, 1000, 1000] = 1000" "np_std [1000, 1000, 1000] = 0"
  "np_median [1000, 1000, 1000] = 1000"
  "np_mean [1000, 1000] = 1000" "pd_std [1000, 1000] = Some 0"
  by (simp_all add: np_mean_def np_std_def np_median_def pd_std_def Let_def)

lemma cycle_risk_amounts:
  "map amount (rk_df cycle_risk_engine) = [1000, 1000, 1000]"
  "map amount (filter (\<lambda>t. sender_id t = ''A'') (rk_df cycle_risk_engine)) = [1000]"
  "map amount (filter (\<lambda>t. receiver_id t = ''A'') (rk_df cycle_risk_engine)) = [1000]"
  "map amount (filter (\<lambda>t. sender_id t = ''B'') (rk_df cycle_risk_engine)) = [1000]"
  "map amount (filter (\<lambda>t. receiver_id t = ''B'') (rk_df cycle_risk_engine)) = [1000]"
  "map amount (filter (\<lambda>t. sender_id t = ''C'') (rk_df cycle_risk_engine)) = [1000]"
  "map amount (filter (\<lambda>t. receiver_id t = ''C'') (rk_df cycle_risk_engine)) = [1000]"
  by (simp_all add: cycle_risk_engine_def cycle_df_def tx_def)

lemma cycle_risk_volume:
  "map (calculate_volume_anomaly_score cycle_risk_engine) [''A'', ''B'', ''C''] = [0, 0, 0]"
  unfolding list.map calculate_volume_anomaly_score_def cycle_risk_amounts Let_def
  apply (simp only: append.simps cycle_risk_stats)
  by simp

lemma cycle_risk_scores:
  "map_sum id (map (\<lambda>r. (ri_account_id r, ri_risk_score r, ri_risk_level r)))
     (calculate_comprehensive_risk_scores cycle_risk_engine cycle_centrality)
   = Inr [(''A'', 531 / 10, ''HIGH''), (''B'', 561 / 10, ''HIGH''), (''C'', 561 / 10, ''HIGH'')]"
proof -
  have v: "calculate_transaction_velocity_score cycle_risk_engine ''A'' = 40"
      "calculate_transaction_velocity_score cycle_risk_engine ''B'' = 55"
      "calculate_transaction_velocity_score cycle_risk_engine ''C'' = 55"
    using cycle_risk_velocity by simp_all
  have y: "calculate_cycle_involvement_score cycle_risk_engine ''A'' = 50"
      "calculate_cycle_involvement_score cycle_risk_engine ''B'' = 50"
      "calculate_cycle_involvement_score cycle_risk_engine ''C'' = 50"
    using cycle_risk_involvement by simp_all
  have m: "calculate_volume_anomaly_score cycle_risk_engine ''A'' = 0"
      "calculate_volume_anomaly_score cycle_risk_engine ''B'' = 0"
      "calculate_volume_anomaly_score cycle_risk_engine ''C'' = 0"
    using cycle_risk_volume by simp_all
  have c: "\<And>a. calculate_degree_centrality_score cycle_centrality a = 100"
    by (simp add: calculate_degree_centrality_score_def cycle_centrality_def Let_def)
  have n: "nodes (rk_graph cycle_risk_engine) = [''A'', ''B'', ''C'']"
      "rk_whitelisted_accounts cycle_risk_engine = []"
    by (simp_all add: cycle_risk_engine_def graph_of_def)
  show ?thesis
    by (simp add: calculate_comprehensive_risk_scores_def cycle_risk_density risk_result_def
        v y m c n score_get_def py_round_def Let_def)
qed

theorem score_bounds_witness:
  "map_of (fst (calculate_suspicion_scores (cycle_engine []))) ''A''
     = Some \<lparr>score = 40, factors = [''cycle_member''], patterns = [''cycle''],
             risk_level = ''MEDIUM'', entry_ring_id = None\<rparr>
   \<and> (0::real) \<le> 40 \<and> (40::real) \<le> 100
   \<and> (\<exists>res. calculate_comprehensive_risk_scores cycle_risk_engine cycle_centrality = Inr res
         \<and> map ri_account_id res = [''A'', ''B'', ''C'']
         \<and> map ri_risk_score res = [531 / 10, 561 / 10, 561 / 10]
         \<and> list_all (\<lambda>r. 0 \<le> ri_risk_score r \<and> ri_risk_score r \<le> 100) res)"
proof -
  have h: "\<forall>n. 0 \<le> degree_centrality cycle_centrality n \<and> 0 \<le> betweenness cycle_centrality n
             \<and> 0 \<le> pagerank cycle_centrality n"
    by (simp add: cycle_centrality_def)
  note t = score_bounds [OF h, of "cycle_engine []" cycle_risk_engine]
  let ?s = "\<lparr>score = 40, factors = [''cycle_member''], patterns = [''cycle''],
             risk_level = ''MEDIUM'', entry_ring_id = None\<rparr>"
  have lookup: "map_of (fst (calculate_suspicion_scores (cycle_engine []))) ''A'' = Some ?s"
    by (simp add: cycle_final)
  have mem: "(''A'', ?s) \<in> set (fst (calculate_suspicion_scores (cycle_engine [])))"
    by (simp add: cycle_final)
  from t have "\<forall>(a, s)\<in>set (fst (calculate_suspicion_scores (cycle_engine []))).
      0 \<le> score s \<and> score s \<le> 100"
    by (rule conjunct1)
  from bspec[OF this mem] have b40: "(0::real) \<le> 40 \<and> (40::real) \<le> 100" by simp
  have rings: "\<forall>r\<in>set (rk_fraud_rings cycle_risk_engine). \<exists>accounts.
      member_accounts r = Some accounts \<and> set accounts \<subseteq> set (nodes (rk_graph cycle_risk_engine))"
    by (simp add: cycle_risk_engine_def graph_of_def)
  from t have total: "(\<forall>r\<in>set (rk_fraud_rings cycle_risk_engine). \<exists>accounts.
               member_accounts r = Some accounts
               \<and> set accounts \<subseteq> set (nodes (rk_graph cycle_risk_engine)))
            \<longrightarrow> (\<exists>res. calculate_comprehensive_risk_scores cycle_risk_engine cycle_centrality = Inr res
                       \<and> map ri_account_id res = nodes (rk_graph cycle_risk_engine))"
    by (elim conjE)
  from total rings obtain res where
    res: "calculate_comprehensive_risk_scores cycle_risk_engine cycle_centrality = Inr res"
    and ids: "map ri_account_id res = nodes (rk_graph cycle_risk_engine)"
    by blast
  from t have "\<forall>res. calculate_comprehensive_risk_scores cycle_risk_engine cycle_centrality = Inr res
             \<longrightarrow> (\<forall>r\<in>set res. 0 \<le> ri_risk_score r \<and> ri_risk_score r \<le> 100)"
    by (elim conjE)
  then have "\<forall>r\<in>set res. 0 \<le> ri_risk_score r \<and> ri_risk_score r \<le> 100"
    using res by blast
  then have bounds: "list_all (\<lambda>r. 0 \<le> ri_risk_score r \<and> ri_risk_score r \<le> 100) res"
    by (simp add: list_all_iff)
  have ids': "map ri_account_id res = [''A'', ''B'', ''C'']"
    using ids by (simp add: cycle_risk_engine_def graph_of_def)
  have "map (\<lambda>r. (ri_account_id r, ri_risk_score r, ri_risk_level r)) res
      = [(''A'', 531 / 10, ''HIGH''), (''B'', 561 / 10, ''HIGH''), (''C'', 561 / 10, ''HIGH'')]"
    using cycle_risk_scores unfolding res by simp
  then have "map (fst \<circ> snd) (map (\<lambda>r. (ri_account_id r, ri_risk_score r, ri_risk_level r)) res)
      = map (fst \<circ> snd) [(''A'', 531 / 10 :: real, ''HIGH''), (''B'', 561 / 10, ''HIGH''), (''C'', 561 / 10, ''HIGH'')]"
    by (rule arg_cong)
  then have sc: "map ri_risk_score res = [531 / 10, 561 / 10, 561 / 10]"
    by (simp add: comp_def)
  from res ids' sc bounds have "calculate_comprehensive_risk_scores cycle_risk_engine cycle_centrality = Inr res
         \<and> map ri_account_id res = [''A'', ''B'', ''C'']
         \<and> map ri_risk_score res = [531 / 10, 561 / 10, 561 / 10]
         \<and> list_all (\<lambda>r. 0 \<le> ri_risk_score r \<and> ri_risk_score r \<le> 100) res"
    by (intro conjI)
  then have ex: "\<exists>res. calculate_comprehensive_risk_scores cycle_risk_engine cycle_centrality = Inr res
         \<and> map ri_account_id res = [''A'', ''B'', ''C'']
         \<and> map ri_risk_score res = [531 / 10, 561 / 10, 561 / 10]
         \<and> list_all (\<lambda>r. 0 \<le> ri_risk_score r \<and> ri_risk_score r \<le> 100) res"
    by (rule exI)
  from b40 have b0: "(0::real) \<le> 40" and b1: "(40::real) \<le> 100" by simp_all
  from lookup b0 b1 ex show ?thesis by (intro conjI)
qed

end
